theory Spec2Isabelle
  imports Main
begin

section \<open>Strings as the program reads them\<close>

text \<open>
  The program is a single Python script, \<^verbatim>\<open>app.py\<close>. Its strings are modelled as
  \<^typ>\<open>string\<close>: a character is a code point below 256, and the character classes below
  are Python's own (\<^verbatim>\<open>str.isspace\<close>, the regular expression classes \<^verbatim>\<open>\s\<close> and
  \<^verbatim>\<open>\d\<close>) restricted to that range.
\<close>

definition is_space :: "char \<Rightarrow> bool" where
  \<comment> \<open>\<^verbatim>\<open>str.isspace\<close> and \<^verbatim>\<open>\s\<close>: tab, LF, VT, FF, CR, the separators 0x1C-0x1F,
      space, NEL (0x85) and the no-break space (0xA0).\<close>
  "is_space c \<longleftrightarrow>
     c \<in> set [CHR 0x09, CHR 0x0A, CHR 0x0B, CHR 0x0C, CHR 0x0D,
               CHR 0x1C, CHR 0x1D, CHR 0x1E, CHR 0x1F, CHR 0x20, CHR 0x85, CHR 0xA0]"

definition is_digit :: "char \<Rightarrow> bool" where
  \<comment> \<open>\<^verbatim>\<open>\d\<close>: the decimal digits.\<close>
  "is_digit c \<longleftrightarrow> c \<in> set ''0123456789''"

definition digit_val :: "char \<Rightarrow> int" where
  "digit_val c =
     (case map_of (zip ''0123456789'' [0, 1, 2, 3, 4, 5, 6, 7, 8, 9]) c of
        Some d \<Rightarrow> d
      | None \<Rightarrow> 0)"

definition ascii_lower :: "char \<Rightarrow> char" where
  \<comment> \<open>Case folding of the letters A-Z; every other character is left alone. No character
      below 256 other than these folds to an ASCII letter.\<close>
  "ascii_lower c =
     (case map_of (zip ''ABCDEFGHIJKLMNOPQRSTUVWXYZ'' ''abcdefghijklmnopqrstuvwxyz'') c of
        Some l \<Rightarrow> l
      | None \<Rightarrow> c)"

definition py_strip :: "string \<Rightarrow> string" where
  \<comment> \<open>\<^verbatim>\<open>s.strip()\<close>: leading and trailing whitespace removed.\<close>
  "py_strip s = rev (dropWhile is_space (rev (dropWhile is_space s)))"

fun starts_with :: "string \<Rightarrow> string \<Rightarrow> bool" where
  "starts_with [] s = True"
| "starts_with (p # ps) [] = False"
| "starts_with (p # ps) (c # cs) = (p = c \<and> starts_with ps cs)"

fun contains :: "string \<Rightarrow> string \<Rightarrow> bool" where
  \<comment> \<open>\<^verbatim>\<open>sub in s\<close>: \<open>sub\<close> occurs in \<open>s\<close> as a contiguous substring.\<close>
  "contains sub [] = (sub = [])"
| "contains sub (c # cs) = (starts_with sub (c # cs) \<or> contains sub cs)"

fun split_acc :: "string \<Rightarrow> string \<Rightarrow> string list" where
  \<comment> \<open>The pieces of the text after the piece \<open>cur\<close> that is being read.\<close>
  "split_acc cur [] = [cur]"
| "split_acc cur (c # cs) =
     (if c = CHR 0x0A then cur # split_acc [] cs else split_acc (cur @ [c]) cs)"

definition split_nl :: "string \<Rightarrow> string list" where
  \<comment> \<open>\<^verbatim>\<open>s.split('\n')\<close>: the pieces between line feeds; always at least one piece.\<close>
  "split_nl s = split_acc [] s"

fun join_nl :: "string list \<Rightarrow> string" where
  \<comment> \<open>\<^verbatim>\<open>'\n'.join(ls)\<close>.\<close>
  "join_nl [] = []"
| "join_nl [l] = l"
| "join_nl (l # m # ls) = l @ CHR 0x0A # join_nl (m # ls)"

section \<open>Score extraction\<close>

text \<open>
  \<^verbatim>\<open>score_match = re.search(r"Completeness Score:\s*(\d+)/10", result, re.IGNORECASE)\<close>
  \<^verbatim>\<open>score = int(score_match.group(1)) if score_match else None\<close>

  The pattern is a literal, a greedy run of whitespace, a greedy non-empty run of digits
  (the group) and the literal \<^verbatim>\<open>/10\<close>. Whitespace, digits and the slash are pairwise
  disjoint, so backtracking into either run cannot produce a match that the maximal runs
  do not: a match at a position is decided by the maximal runs alone. \<^verbatim>\<open>re.search\<close> tries
  the positions from left to right and returns the first match.
\<close>

datatype error = ValueError | AttributeError

fun match_lit_ci :: "string \<Rightarrow> string \<Rightarrow> string option" where
  \<comment> \<open>The lower-case literal \<open>p\<close> matched case-insensitively at the start of the text;
      the result is the text that follows the match.\<close>
  "match_lit_ci [] s = Some s"
| "match_lit_ci (p # ps) [] = None"
| "match_lit_ci (p # ps) (c # cs) =
     (if ascii_lower c = p then match_lit_ci ps cs else None)"

definition score_at :: "string \<Rightarrow> string option" where
  \<comment> \<open>The pattern matched at the start of the text: the digit group, if it matches.\<close>
  "score_at s =
     (case match_lit_ci ''completeness score:'' s of
        None \<Rightarrow> None
      | Some r \<Rightarrow>
          (let r1 = dropWhile is_space r;
               ds = takeWhile is_digit r1;
               r2 = dropWhile is_digit r1
           in if ds \<noteq> [] \<and> starts_with ''/10'' r2 then Some ds else None))"

fun re_search_score :: "string \<Rightarrow> string option" where
  \<comment> \<open>\<^verbatim>\<open>re.search\<close>: group 1 of the leftmost match, \<open>None\<close> when there is no match.\<close>
  "re_search_score [] = score_at []"
| "re_search_score (c # cs) =
     (case score_at (c # cs) of
        Some ds \<Rightarrow> Some ds
      | None \<Rightarrow> re_search_score cs)"

definition dec_val :: "string \<Rightarrow> int" where
  "dec_val ds = foldl (\<lambda>a c. 10 * a + digit_val c) 0 ds"

definition int_max_str_digits :: nat where
  \<comment> \<open>The interpreter's limit on the number of digits of a decimal string that \<^verbatim>\<open>int\<close>
      converts (\<^verbatim>\<open>sys.get_int_max_str_digits()\<close>, CPython 3.11 and the patched releases
      before it): 4300 unless it is configured otherwise, and the program does not
      configure it.\<close>
  "int_max_str_digits = 4300"

definition py_int :: "string \<Rightarrow> error + int" where
  \<comment> \<open>\<^verbatim>\<open>int(s)\<close> on the arguments the program passes: a non-empty run of at most
      \<open>int_max_str_digits\<close> decimal digits (leading zeros counted) has its decimal value;
      a longer run raises \<^verbatim>\<open>ValueError\<close>, and so does an argument that is not a number.\<close>
  "py_int s =
     (if s \<noteq> [] \<and> list_all is_digit s \<and> length s \<le> int_max_str_digits
      then Inr (dec_val s) else Inl ValueError)"

definition extract_score :: "string \<Rightarrow> error + int option" where
  "extract_score result =
     (case re_search_score result of
        None \<Rightarrow> Inr None
      | Some g \<Rightarrow> (case py_int g of Inl e \<Rightarrow> Inl e | Inr n \<Rightarrow> Inr (Some n)))"

section \<open>Section splitting\<close>

text \<open>
  The dictionary \<^verbatim>\<open>sections\<close> has the three keys below, each bound to \<^verbatim>\<open>None\<close> or to a
  list of lines; \<^verbatim>\<open>current_section\<close> is \<^verbatim>\<open>None\<close> or one of the keys. Appending to the
  entry of the current section is an \<^verbatim>\<open>AttributeError\<close> if that entry is \<^verbatim>\<open>None\<close>.
\<close>

datatype section_name = MissingSections | ImprovementTips | DetailedFeedback

record scan_state =
  current_section :: "section_name option"
  sections :: "section_name \<Rightarrow> string list option"

definition init_state :: scan_state where
  "init_state = \<lparr>current_section = None, sections = (\<lambda>_. None)\<rparr>"

definition start_section :: "section_name \<Rightarrow> scan_state \<Rightarrow> scan_state" where
  \<comment> \<open>\<^verbatim>\<open>current_section = name; sections[current_section] = []\<close>\<close>
  "start_section name st = \<lparr>current_section = Some name, sections = (sections st)(name \<mapsto> [])\<rparr>"

definition scan_step :: "scan_state \<Rightarrow> string \<Rightarrow> error + scan_state" where
  "scan_step st line =
     (if contains ''### Missing Sections:'' line then Inr (start_section MissingSections st)
      else if contains ''### Improvement Tips:'' line then Inr (start_section ImprovementTips st)
      else if contains ''### Detailed Feedback:'' line then Inr (start_section DetailedFeedback st)
      else (case current_section st of
              None \<Rightarrow> Inr st
            | Some cur \<Rightarrow>
                if py_strip line \<noteq> [] then
                  (case sections st cur of
                     None \<Rightarrow> Inl AttributeError
                   | Some ls \<Rightarrow> Inr (st\<lparr>sections := (sections st)(cur \<mapsto> ls @ [line])\<rparr>))
                else Inr st))"

fun scan_lines :: "scan_state \<Rightarrow> string list \<Rightarrow> error + scan_state" where
  \<comment> \<open>\<^verbatim>\<open>for line in result.split('\n'): ...\<close>\<close>
  "scan_lines st [] = Inr st"
| "scan_lines st (line # rest) =
     (case scan_step st line of
        Inl e \<Rightarrow> Inl e
      | Inr st' \<Rightarrow> scan_lines st' rest)"

record analysis_result =
  score :: "int option"
  section_lists :: "section_name \<Rightarrow> string list option"
  full_response :: string

definition parse :: "string \<Rightarrow> error + analysis_result" where
  \<comment> \<open>The response parsing of the analysis branch: the score, then the section scan; the
      response itself stays available for the "View Full AI Analysis" expander.\<close>
  "parse result =
     (case extract_score result of
        Inl e \<Rightarrow> Inl e
      | Inr sc \<Rightarrow>
          (case scan_lines init_state (split_nl result) of
             Inl e \<Rightarrow> Inl e
           | Inr st \<Rightarrow>
               Inr \<lparr>score = sc, section_lists = sections st, full_response = result\<rparr>))"

definition heading_of :: "string \<Rightarrow> section_name option" where
  \<comment> \<open>The branch of the \<^verbatim>\<open>if\<close>/\<^verbatim>\<open>elif\<close> chain that a line takes: the first heading, in the
      order of the chain, that occurs in it.\<close>
  "heading_of line =
     (if contains ''### Missing Sections:'' line then Some MissingSections
      else if contains ''### Improvement Tips:'' line then Some ImprovementTips
      else if contains ''### Detailed Feedback:'' line then Some DetailedFeedback
      else None)"

definition nonblank :: "string \<Rightarrow> bool" where
  \<comment> \<open>\<^verbatim>\<open>line.strip()\<close> is true: non-empty once stripped.\<close>
  "nonblank line \<longleftrightarrow> py_strip line \<noteq> []"

section \<open>PDF text extraction\<close>

text \<open>
  \<^verbatim>\<open>with pdfplumber.open(io.BytesIO(file_bytes)) as pdf:\<close>
  \<^verbatim>\<open>    for page in pdf.pages:\<close>
  \<^verbatim>\<open>        lab_text += page.extract_text() + "\n"\<close>

  The PDF library is not part of the program; what it delivers is the input of the model.
  Opening the bytes either raises or gives the pages. For each page, the statement of the
  loop body either appends the page's text (a string, empty for a page without text) or
  raises: \<open>PageFails\<close> stands for an exception out of \<^verbatim>\<open>extract_text\<close> or out of the
  concatenation when the library hands back something that is not a string. The handler
  reports the exception; \<^verbatim>\<open>lab_text\<close> keeps what the pages before the failure appended.
\<close>

datatype page = PageText string | PageFails string

datatype pdf_document = NotAPdf string | Document "page list"

datatype pdf_message = PdfExtracted | PdfReadError string

fun read_pages :: "string \<Rightarrow> page list \<Rightarrow> string \<times> string option" where
  "read_pages lab_text [] = (lab_text, None)"
| "read_pages lab_text (PageText t # pages) = read_pages (lab_text @ t @ [CHR 0x0A]) pages"
| "read_pages lab_text (PageFails e # pages) = (lab_text, Some e)"

definition extract_pdf :: "pdf_document \<Rightarrow> string \<times> pdf_message" where
  \<comment> \<open>The value of \<^verbatim>\<open>lab_text\<close> after the block, and the message shown.\<close>
  "extract_pdf d =
     (case d of
        NotAPdf e \<Rightarrow> ([], PdfReadError e)
      | Document pages \<Rightarrow>
          (case read_pages [] pages of
             (lab_text, None) \<Rightarrow> (lab_text, PdfExtracted)
           | (lab_text, Some e) \<Rightarrow> (lab_text, PdfReadError e)))"

definition spec_extract :: "string list \<Rightarrow> string" where
  \<comment> \<open>The specification's reading: the page texts with a newline between consecutive
      pages, \<open>N - 1\<close> separators for \<open>N\<close> pages.\<close>
  "spec_extract texts = join_nl texts"

section \<open>The AI client\<close>

text \<open>
  \<^verbatim>\<open>query_ai(prompt)\<close> posts one request and turns every failure into a message on the page
  and the result \<^verbatim>\<open>None\<close>. The endpoint is the environment: a function from the request
  to what \<^verbatim>\<open>requests.post\<close> does with it. The requests that were posted and the messages
  that were shown are the state. The sampling temperature of the payload (0.7) is
  a constant of every request and is left out of the record.
\<close>

record request =
  url :: string
  authorization :: string
  model :: string
  system_content :: string
  user_content :: string
  timeout :: nat

datatype http_outcome =
    PostRaises string
  | Response nat string "string + string"
  \<comment> \<open>\<open>Response status_code text content\<close>: \<open>content\<close> is what
      \<^verbatim>\<open>response.json()['choices'][0]['message']['content']\<close> evaluates to, \<open>Inl\<close> the
      message of the exception it raises on a malformed body.\<close>

datatype client_error = InvalidApiKey | ApiError nat string | ConnectionProblem string

record client_state =
  posted :: "request list"
  shown :: "client_error list"

definition API_URL :: string where
  "API_URL = ''https://api.groq.com/openai/v1/chat/completions''"

definition MODEL :: string where
  "MODEL = ''llama3-70b-8192''"

definition make_request :: "string \<Rightarrow> string \<Rightarrow> request" where
  "make_request api_key prompt =
     \<lparr>url = API_URL,
      authorization = ''Bearer '' @ api_key,
      model = MODEL,
      system_content = ''You are a helpful science teacher providing detailed explanations.'',
      user_content = prompt,
      timeout = 120\<rparr>"

definition st_error :: "client_error \<Rightarrow> client_state \<Rightarrow> client_state" where
  "st_error e st = st\<lparr>shown := shown st @ [e]\<rparr>"

definition query_ai ::
  "(request \<Rightarrow> http_outcome) \<Rightarrow> string \<Rightarrow> string \<Rightarrow> client_state \<Rightarrow> string option \<times> client_state" where
  "query_ai endpoint api_key prompt st =
     (let req = make_request api_key prompt;
          st1 = st\<lparr>posted := posted st @ [req]\<rparr>
      in case endpoint req of
           PostRaises e \<Rightarrow> (None, st_error (ConnectionProblem e) st1)
         | Response status_code body content \<Rightarrow>
             if status_code = 401 then (None, st_error InvalidApiKey st1)
             else if 400 \<le> status_code \<and> status_code < 600
               then (None, st_error (ApiError status_code body) st1)
             else (case content of
                     Inl e \<Rightarrow> (None, st_error (ConnectionProblem e) st1)
                   | Inr completion \<Rightarrow> (Some completion, st1)))"

section \<open>The report analyzer\<close>

definition full_prompt :: "string \<Rightarrow> string" where
  "full_prompt lab_text =
     join_nl
     [''You are a science teacher evaluating a student's lab report. Please provide a comprehensive analysis:'',
      ''        Lab Report:'',
      ''        '' @ lab_text,
      ''        Evaluation Guidelines:'',
      ''        1. **Section Check**: Identify which of these sections are present and which are missing:'',
      ''            - Title'',
      ''            - Objective'',
      ''            - Hypothesis'',
      ''            - Materials'',
      ''            - Procedure'',
      ''            - Observations'',
      ''            - Results'',
      ''            - Conclusion'',
      ''            - References'',
      ''        '',
      ''        2. **Completeness Score**: '',
      ''            - Assign a numerical score from 1-10 based on completeness'',
      ''            - Justify the score based on missing sections and content quality'',
      ''        '',
      ''        3. **Improvement Tips**:'',
      ''            - For each missing section, explain why it's important'',
      ''            - Provide specific suggestions for improvement (e.g., \"Try writing a more detailed observation section by including quantitative data\")'',
      ''            - Highlight any sections that need more detail or clarity'',
      ''        '',
      ''        4. **Structure Response**:'',
      ''            - Start with: \"### Missing Sections:\"'',
      ''            - Then: \"### Completeness Score: X/10\"'',
      ''            - Then: \"### Improvement Tips:\"'',
      ''            - Finally: \"### Detailed Feedback:\"'',
      ''        '',
      ''        Be concise but thorough in your analysis.'',
      ''        '']"

definition followup_prompt :: "string \<Rightarrow> string \<Rightarrow> string" where
  "followup_prompt lab_text user_question =
     join_nl
     [''Lab Report:'',
      ''                '' @ lab_text,
      ''                '',
      ''                Question: '' @ user_question,
      ''                '',
      ''                Answer the question based on the lab report. If the question can't be answered from the report, '',
      ''                suggest what information the student should add to answer it.'',
      ''                '']"

text \<open>
  One run of the analyzer branch from the test \<^verbatim>\<open>if lab_text.strip():\<close> on. Its inputs are
  the text of the report as it stands at that test (after extraction and the user's
  review in the text area) and the widgets: the "Analyze Report" button, the question
  field and the "Ask Question" button. It returns the completion of the analysis and of
  the follow-up question, where one was asked for and delivered.
\<close>

record widgets =
  analyze_button :: bool
  user_question :: string
  ask_button :: bool

definition analyzer_run ::
  "(request \<Rightarrow> http_outcome) \<Rightarrow> string \<Rightarrow> string \<Rightarrow> widgets \<Rightarrow> client_state
     \<Rightarrow> (string option \<times> string option) \<times> client_state" where
  "analyzer_run endpoint api_key lab_text w st =
     (if py_strip lab_text \<noteq> [] then
        (case (if analyze_button w then query_ai endpoint api_key (full_prompt lab_text) st
               else (None, st)) of
           (result, st1) \<Rightarrow>
             (case (if (ask_button w \<or> user_question w \<noteq> []) \<and> py_strip (user_question w) \<noteq> []
                    then query_ai endpoint api_key (followup_prompt lab_text (user_question w)) st1
                    else (None, st1)) of
                (followup_response, st2) \<Rightarrow> ((result, followup_response), st2)))
      else ((None, None), st))"

section \<open>Notions used in the statements\<close>

definition wf_state :: "scan_state \<Rightarrow> bool" where
  \<comment> \<open>The invariant of the scan: the entry of the current section is a list.\<close>
  "wf_state st \<longleftrightarrow>
     (case current_section st of None \<Rightarrow> True | Some cur \<Rightarrow> sections st cur \<noteq> None)"

definition score_in_range :: "int option \<Rightarrow> bool" where
  \<comment> \<open>The specification's data model: the score is absent or an integer from 1 to 10.\<close>
  "score_in_range sc \<longleftrightarrow> (case sc of None \<Rightarrow> True | Some n \<Rightarrow> 1 \<le> n \<and> n \<le> 10)"

definition plain :: "string \<Rightarrow> bool" where
  \<comment> \<open>A line that takes none of the three heading branches.\<close>
  "plain line \<longleftrightarrow> heading_of line = None"

definition spec_last_occurrence_content :: "string \<Rightarrow> string list \<Rightarrow> string list" where
  \<comment> \<open>The specification's reading of a repeated heading: the non-blank lines that follow
      the last line in which the text of the heading occurs, up to the next heading.\<close>
  "spec_last_occurrence_content heading ls =
     filter nonblank (takeWhile plain (rev (takeWhile (\<lambda>l. \<not> contains heading l) (rev ls))))"

definition stable :: "string list \<Rightarrow> scan_state \<Rightarrow> bool" where
  \<comment> \<open>Every line of every section list is non-blank and is one of the given lines.\<close>
  "stable lines st \<longleftrightarrow>
     (\<forall>name ls. sections st name = Some ls \<longrightarrow> list_all nonblank ls \<and> set ls \<subseteq> set lines)"

definition raw_intro :: string where
  "raw_intro = ''Intro\<newline>### Improvement Tips:\<newline>\<newline>Be precise''"

definition raw_repeated :: string where
  "raw_repeated = ''### Improvement Tips:\<newline>old tip\<newline>### Missing Sections:\<newline>none\<newline>### Improvement Tips:\<newline>new tip\<newline>\<newline>more''"

definition raw_two_headings :: string where
  "raw_two_headings = ''### Improvement Tips:\<newline>a\<newline>### Missing Sections: ### Improvement Tips:\<newline>b''"

section \<open>The score pattern, read as a regular expression\<close>

definition regex_score_match :: "string \<Rightarrow> nat \<Rightarrow> string \<Rightarrow> bool" where
  \<comment> \<open>The regular expression \<^verbatim>\<open>Completeness Score:\s*(\d+)/10\<close> with \<^verbatim>\<open>re.IGNORECASE\<close>, read
      as a pattern: it matches the text at position \<open>k\<close> with the digit group \<open>ds\<close> when
      from \<open>k\<close> on the text reads \<^verbatim>\<open>Completeness Score:\<close> in any letter case, a run of
      whitespace, the non-empty run of digits \<open>ds\<close> and \<^verbatim>\<open>/10\<close>.\<close>
  "regex_score_match text k ds \<longleftrightarrow>
     (\<exists>lit ws rest.
        drop k text = lit @ ws @ ds @ ''/10'' @ rest \<and>
        map ascii_lower lit = ''completeness score:'' \<and>
        list_all is_space ws \<and> ds \<noteq> [] \<and> list_all is_digit ds)"

definition raw_score :: string where
  "raw_score = ''x completeness SCORE:\<newline> 08/10, Completeness Score: 9/10''"

definition raw_long_score :: string where
  "raw_long_score = ''Completeness Score: '' @ replicate 4301 (CHR ''2'') @ ''/10''"

section \<open>The four headings of the prompt\<close>

definition prompt_heading :: "string \<Rightarrow> bool" where
  \<comment> \<open>A line that carries one of the four headings that the prompt asks for.\<close>
  "prompt_heading l \<longleftrightarrow>
     contains ''### Missing Sections:'' l \<or> contains ''### Completeness Score:'' l \<or>
     contains ''### Improvement Tips:'' l \<or> contains ''### Detailed Feedback:'' l"

definition spec_section_content :: "string \<Rightarrow> string list \<Rightarrow> string list" where
  \<comment> \<open>The specification's reading of a section of a response with the four headings: the
      non-blank lines between the line of its heading and the next of the four headings.\<close>
  "spec_section_content heading ls =
     filter nonblank
       (takeWhile (\<lambda>l. \<not> prompt_heading l) (tl (dropWhile (\<lambda>l. \<not> contains heading l) ls)))"

definition raw_four_headings :: string where
  "raw_four_headings = ''### Missing Sections:\<newline>- References\<newline>\<newline>### Completeness Score: 7/10\<newline>Most parts are there.\<newline>### Improvement Tips:\<newline>- Cite your sources\<newline>### Detailed Feedback:\<newline>Clear procedure.\<newline>''"

section \<open>Whitespace and digits\<close>

lemma strip_blank_iff: "py_strip s = [] \<longleftrightarrow> list_all is_space s"
proof
  assume "list_all is_space s"
  then have d: "dropWhile is_space s = []"
    by (simp add: list_all_iff)
  show "py_strip s = []"
    by (simp only: py_strip_def d rev.simps dropWhile.simps)
next
  assume a: "py_strip s = []"
  show "list_all is_space s"
  proof (rule ccontr)
    assume "\<not> list_all is_space s"
    then have ne: "dropWhile is_space s \<noteq> []"
      by (simp add: list_all_iff)
    then have h: "\<not> is_space (hd (dropWhile is_space s))"
      by (rule hd_dropWhile)
    from a have "dropWhile is_space (rev (dropWhile is_space s)) = []"
      by (simp add: py_strip_def)
    then have "\<forall>x\<in>set (dropWhile is_space s). is_space x"
      by (simp add: dropWhile_eq_Nil_conv)
    with ne h show False
      by (meson hd_in_set)
  qed
qed

lemma strip_blank: "list_all is_space s \<Longrightarrow> py_strip s = []"
  by (simp add: strip_blank_iff)

lemma nonblank_iff: "nonblank l \<longleftrightarrow> \<not> list_all is_space l"
  by (simp add: nonblank_def strip_blank_iff)

lemma score_at_digits: "score_at s = Some ds \<Longrightarrow> ds \<noteq> [] \<and> list_all is_digit ds"
  by (auto simp: score_at_def Let_def list_all_iff split: option.splits if_splits dest: set_takeWhileD)

lemma re_search_score_digits: "re_search_score s = Some ds \<Longrightarrow> ds \<noteq> [] \<and> list_all is_digit ds"
  by (induction s) (auto split: option.splits dest: score_at_digits)

lemma digit_val_nonneg: "0 \<le> digit_val c"
  by (simp add: digit_val_def split: option.splits if_splits)

lemma foldl_dec_nonneg: "0 \<le> a \<Longrightarrow> 0 \<le> foldl (\<lambda>a c. 10 * a + digit_val c) a ds"
  by (induction ds arbitrary: a) (simp_all add: digit_val_nonneg)

lemma dec_val_nonneg: "0 \<le> dec_val ds"
  by (simp add: dec_val_def foldl_dec_nonneg)

lemma digit_val_le9: "digit_val c \<le> 9"
  by (simp add: digit_val_def split: option.splits if_splits)

lemma foldl_dec_bound: "foldl (\<lambda>a c. 10 * a + digit_val c) a ds < (a + 1) * 10 ^ length ds"
proof (induction ds arbitrary: a)
  case Nil
  show ?case by simp
next
  case (Cons c cs)
  have "foldl (\<lambda>a c. 10 * a + digit_val c) (10 * a + digit_val c) cs
          < (10 * a + digit_val c + 1) * 10 ^ length cs"
    by (rule Cons.IH)
  also have "\<dots> \<le> (10 * a + 10) * 10 ^ length cs"
    using digit_val_le9 [of c] by (intro mult_right_mono) simp_all
  also have "\<dots> = (a + 1) * 10 ^ length (c # cs)"
    by (simp add: algebra_simps)
  finally show ?case by simp
qed

lemma dec_val_bound: "dec_val ds < 10 ^ length ds"
  using foldl_dec_bound [of 0 ds] by (simp add: dec_val_def)

lemma extract_score_cases:
  "(re_search_score raw = None \<and> extract_score raw = Inr None) \<or>
   (\<exists>ds. re_search_score raw = Some ds \<and> ds \<noteq> [] \<and> list_all is_digit ds \<and>
         extract_score raw =
           (if length ds \<le> int_max_str_digits then Inr (Some (dec_val ds)) else Inl ValueError))"
  by (cases "re_search_score raw") (auto simp: extract_score_def py_int_def dest: re_search_score_digits)

section \<open>The pattern at a position\<close>

lemma starts_with_iff: "starts_with p s \<longleftrightarrow> (\<exists>rest. s = p @ rest)"
  by (induction p s rule: starts_with.induct) auto

lemma match_lit_ci_iff:
  "match_lit_ci p s = Some r \<longleftrightarrow> (\<exists>lit. s = lit @ r \<and> map ascii_lower lit = p)"
proof (induction p s rule: match_lit_ci.induct)
  case (1 s)
  then show ?case by auto
next
  case (2 p ps)
  then show ?case by auto
next
  case (3 p ps c cs)
  show ?case
  proof (cases "ascii_lower c = p")
    case True
    have "(\<exists>lit. c # cs = lit @ r \<and> map ascii_lower lit = p # ps)
            \<longleftrightarrow> (\<exists>lit'. cs = lit' @ r \<and> map ascii_lower lit' = ps)"
    proof
      assume "\<exists>lit. c # cs = lit @ r \<and> map ascii_lower lit = p # ps"
      then obtain lit where l: "c # cs = lit @ r" "map ascii_lower lit = p # ps"
        by (elim exE conjE)
      then obtain x lit' where "lit = x # lit'" by (cases lit) auto
      with l show "\<exists>lit'. cs = lit' @ r \<and> map ascii_lower lit' = ps" by auto
    next
      assume "\<exists>lit'. cs = lit' @ r \<and> map ascii_lower lit' = ps"
      then obtain lit' where "cs = lit' @ r" "map ascii_lower lit' = ps" by blast
      with True have "c # cs = (c # lit') @ r \<and> map ascii_lower (c # lit') = p # ps" by simp
      then show "\<exists>lit. c # cs = lit @ r \<and> map ascii_lower lit = p # ps" by (rule exI)
    qed
    with True 3 show ?thesis by simp
  next
    case False
    have "\<not> (\<exists>lit. c # cs = lit @ r \<and> map ascii_lower lit = p # ps)"
    proof
      assume "\<exists>lit. c # cs = lit @ r \<and> map ascii_lower lit = p # ps"
      then obtain lit where l: "c # cs = lit @ r" "map ascii_lower lit = p # ps"
        by (elim exE conjE)
      then obtain x lit' where "lit = x # lit'" by (cases lit) auto
      with l False show False by auto
    qed
    with False show ?thesis by simp
  qed
qed

lemma digit_not_space: "is_digit c \<Longrightarrow> \<not> is_space c"
  by (auto simp: is_digit_def is_space_def)

lemma slash_not_digit: "\<not> is_digit (CHR ''/'')"
  by (simp add: is_digit_def)


lemma score_at_SomeI:
  assumes s: "s = lit @ ws @ ds @ ''/10'' @ rest"
    and l: "map ascii_lower lit = ''completeness score:''"
    and ws: "list_all is_space ws" and ne: "ds \<noteq> []" and ds: "list_all is_digit ds"
  shows "score_at s = Some ds"
proof -
  have "\<exists>lit'. s = lit' @ (ws @ ds @ ''/10'' @ rest) \<and> map ascii_lower lit' = ''completeness score:''"
    using s l by (intro exI [of _ lit] conjI)
  then have m: "match_lit_ci ''completeness score:'' s = Some (ws @ ds @ ''/10'' @ rest)"
    by (simp only: match_lit_ci_iff)
  from ne obtain d ds' where dd: "ds = d # ds'" by (cases ds) auto
  with ds have "\<not> is_space d" by (simp add: digit_not_space)
  then have "dropWhile is_space (ds @ ''/10'' @ rest) = ds @ ''/10'' @ rest"
    by (simp add: dd)
  moreover have "dropWhile is_space (ws @ ds @ ''/10'' @ rest) = dropWhile is_space (ds @ ''/10'' @ rest)"
    using ws by (intro dropWhile_append2) (simp add: list_all_iff)
  ultimately have r1: "dropWhile is_space (ws @ ds @ ''/10'' @ rest) = ds @ ''/10'' @ rest"
    by simp
  have t: "takeWhile is_digit (ds @ ''/10'' @ rest) = ds"
    using ds by (simp add: takeWhile_append2 list_all_iff slash_not_digit)
  have d: "dropWhile is_digit (ds @ ''/10'' @ rest) = ''/10'' @ rest"
    using ds by (simp add: dropWhile_append2 list_all_iff slash_not_digit)
  have sw: "starts_with ''/10'' (''/10'' @ rest)"
    by (simp only: starts_with_iff) (rule exI, rule refl)
  show "score_at s = Some ds"
    by (simp only: score_at_def m option.case Let_def r1 t d ne sw not_False_eq_True simp_thms if_True)
qed


lemma score_at_SomeD:
  assumes a: "score_at s = Some ds"
  shows "\<exists>lit ws rest. s = lit @ ws @ ds @ ''/10'' @ rest \<and>
        map ascii_lower lit = ''completeness score:'' \<and>
        list_all is_space ws \<and> ds \<noteq> [] \<and> list_all is_digit ds"
proof -
  from a obtain r where m: "match_lit_ci ''completeness score:'' s = Some r"
    by (cases "match_lit_ci ''completeness score:'' s") (simp_all only: score_at_def option.case option.distinct)
  from m [unfolded match_lit_ci_iff] obtain lit
    where s: "s = lit @ r" and l: "map ascii_lower lit = ''completeness score:''"
    by (elim exE conjE)
  let ?ws = "takeWhile is_space r" and ?r1 = "dropWhile is_space r"
  let ?r2 = "dropWhile is_digit ?r1"
  from a have c: "(if takeWhile is_digit ?r1 \<noteq> [] \<and> starts_with ''/10'' ?r2
                   then Some (takeWhile is_digit ?r1) else None) = Some ds"
    by (simp only: score_at_def m option.case Let_def)
  then have ds: "takeWhile is_digit ?r1 = ds" and ne: "ds \<noteq> []"
    and sw: "starts_with ''/10'' ?r2"
    by (auto split: if_splits)
  from sw [unfolded starts_with_iff] obtain rest where r2: "?r2 = ''/10'' @ rest" by (elim exE)
  have "r = ?ws @ ?r1" by simp
  also have "?r1 = takeWhile is_digit ?r1 @ ?r2" by simp
  finally have "r = ?ws @ ds @ ''/10'' @ rest" by (simp only: r2 ds)
  then have "lit @ r = lit @ ?ws @ ds @ ''/10'' @ rest" by (rule arg_cong)
  then have e: "s = lit @ ?ws @ ds @ ''/10'' @ rest" by (simp only: s)
  have w: "list_all is_space ?ws"
    by (simp add: list_all_iff) (meson set_takeWhileD)
  have "list_all is_digit (takeWhile is_digit ?r1)"
    by (simp add: list_all_iff) (meson set_takeWhileD)
  then have g: "list_all is_digit ds" by (simp only: ds)
  from e l w ne g show ?thesis by (intro exI conjI)
qed

lemma score_at_iff:
  "score_at s = Some ds \<longleftrightarrow>
     (\<exists>lit ws rest. s = lit @ ws @ ds @ ''/10'' @ rest \<and>
        map ascii_lower lit = ''completeness score:'' \<and>
        list_all is_space ws \<and> ds \<noteq> [] \<and> list_all is_digit ds)"
proof
  assume "score_at s = Some ds"
  then show "\<exists>lit ws rest. s = lit @ ws @ ds @ ''/10'' @ rest \<and>
        map ascii_lower lit = ''completeness score:'' \<and>
        list_all is_space ws \<and> ds \<noteq> [] \<and> list_all is_digit ds"
    by (rule score_at_SomeD)
next
  assume "\<exists>lit ws rest. s = lit @ ws @ ds @ ''/10'' @ rest \<and>
        map ascii_lower lit = ''completeness score:'' \<and>
        list_all is_space ws \<and> ds \<noteq> [] \<and> list_all is_digit ds"
  then obtain lit ws rest where "s = lit @ ws @ ds @ ''/10'' @ rest"
    "map ascii_lower lit = ''completeness score:''"
    "list_all is_space ws" "ds \<noteq> []" "list_all is_digit ds"
    by (elim exE conjE)
  then show "score_at s = Some ds" by (rule score_at_SomeI)
qed

lemma score_at_literal:
  assumes "ds \<noteq> []" and "list_all is_digit ds"
  shows "score_at (''Completeness Score: '' @ ds @ ''/10'') = Some ds"
proof -
  have e: "''Completeness Score: '' @ ds @ ''/10'' = ''Completeness Score:'' @ '' '' @ ds @ ''/10'' @ []"
    by simp
  have l: "map ascii_lower ''Completeness Score:'' = ''completeness score:''"
    by (simp add: ascii_lower_def)
  have w: "list_all is_space '' ''"
    by (simp add: is_space_def)
  from e l w assms show ?thesis by (rule score_at_SomeI)
qed

lemma re_search_score_literal:
  assumes "ds \<noteq> []" and "list_all is_digit ds"
  shows "re_search_score (''Completeness Score: '' @ ds @ ''/10'') = Some ds"
proof -
  have "re_search_score (CHR ''C'' # ''ompleteness Score: '' @ ds @ ''/10'')
          = (case score_at (CHR ''C'' # ''ompleteness Score: '' @ ds @ ''/10'') of
               Some g \<Rightarrow> Some g
             | None \<Rightarrow> re_search_score (''ompleteness Score: '' @ ds @ ''/10''))"
    by (rule re_search_score.simps(2))
  moreover have "CHR ''C'' # ''ompleteness Score: '' @ ds @ ''/10''
                   = ''Completeness Score: '' @ ds @ ''/10''"
    by simp
  ultimately show ?thesis
    by (simp only: score_at_literal [OF assms] option.case)
qed

section \<open>The scan never fails\<close>

lemma wf_init: "wf_state init_state"
  by (simp add: wf_state_def init_state_def)

lemma wf_start: "wf_state (start_section n st)"
  by (simp add: wf_state_def start_section_def)

lemma scan_step_total: "wf_state st \<Longrightarrow> \<exists>st'. scan_step st line = Inr st' \<and> wf_state st'"
  apply (simp add: scan_step_def wf_start)
  apply (auto simp: wf_state_def split: option.splits)
  done

lemma scan_lines_total: "wf_state st \<Longrightarrow> \<exists>st'. scan_lines st ls = Inr st' \<and> wf_state st'"
proof (induction ls arbitrary: st)
  case Nil
  then show ?case by simp
next
  case (Cons l ls)
  from scan_step_total [OF Cons.prems, of l] obtain st1
    where s: "scan_step st l = Inr st1" and w: "wf_state st1" by blast
  from Cons.IH [OF w] show ?case by (simp add: s)
qed

lemma parse_scan:
  "\<exists>st. scan_lines init_state (split_nl raw) = Inr st \<and>
     parse raw = (case extract_score raw of
                    Inl e \<Rightarrow> Inl e
                  | Inr sc \<Rightarrow> Inr \<lparr>score = sc, section_lists = sections st, full_response = raw\<rparr>)"
proof -
  from scan_lines_total [OF wf_init, of "split_nl raw"] obtain st
    where b: "scan_lines init_state (split_nl raw) = Inr st" by blast
  have "parse raw = (case extract_score raw of
                    Inl e \<Rightarrow> Inl e
                  | Inr sc \<Rightarrow> Inr \<lparr>score = sc, section_lists = sections st, full_response = raw\<rparr>)"
    by (cases "extract_score raw") (simp_all add: parse_def b)
  with b show ?thesis by blast
qed

lemma parse_cases:
  "(re_search_score raw = None \<and> (\<exists>r. parse raw = Inr r \<and> score r = None)) \<or>
   (\<exists>ds. re_search_score raw = Some ds \<and> ds \<noteq> [] \<and> list_all is_digit ds \<and>
         (if length ds \<le> int_max_str_digits
          then \<exists>r. parse raw = Inr r \<and> score r = Some (dec_val ds)
          else parse raw = Inl ValueError))"
proof -
  from parse_scan [of raw] obtain st :: scan_state where
    p: "parse raw = (case extract_score raw of
                    Inl e \<Rightarrow> Inl e
                  | Inr sc \<Rightarrow> Inr \<lparr>score = sc, section_lists = sections st, full_response = raw\<rparr>)"
    by blast
  from extract_score_cases [of raw] show ?thesis
  proof
    assume "re_search_score raw = None \<and> extract_score raw = Inr None"
    with p show ?thesis by simp
  next
    assume "\<exists>ds. re_search_score raw = Some ds \<and> ds \<noteq> [] \<and> list_all is_digit ds \<and>
         extract_score raw =
           (if length ds \<le> int_max_str_digits then Inr (Some (dec_val ds)) else Inl ValueError)"
    then obtain ds where d: "re_search_score raw = Some ds" "ds \<noteq> []" "list_all is_digit ds"
      and e: "extract_score raw =
           (if length ds \<le> int_max_str_digits then Inr (Some (dec_val ds)) else Inl ValueError)"
      by (elim exE conjE)
    have "if length ds \<le> int_max_str_digits
          then \<exists>r. parse raw = Inr r \<and> score r = Some (dec_val ds)
          else parse raw = Inl ValueError"
    proof (cases "length ds \<le> int_max_str_digits")
      case True
      with p e show ?thesis by simp
    next
      case False
      with p e show ?thesis by simp
    qed
    with d show ?thesis by blast
  qed
qed

text \<open>
  Claim C5, as the specification states it: the parsing of a response returns a result for
  every response and never raises. \<^verbatim>\<open>int\<close> refuses a run of more than 4300 digits: for
  the response below, whose score has 4301 digits, the parsing raises \<^verbatim>\<open>ValueError\<close>.
\<close>

theorem parse_total_counterexample:
  "parse (''Completeness Score: '' @ replicate 4301 (CHR ''1'') @ ''/10'') = Inl ValueError"
proof -
  have ne: "replicate 4301 (CHR ''1'') \<noteq> []"
    by (simp only: replicate_empty)
  have dg: "list_all is_digit (replicate 4301 (CHR ''1''))"
    by (simp add: list_all_iff is_digit_def)
  have "re_search_score (''Completeness Score: '' @ replicate 4301 (CHR ''1'') @ ''/10'')
          = Some (replicate 4301 (CHR ''1''))"
    using ne dg by (rule re_search_score_literal)
  then have "extract_score (''Completeness Score: '' @ replicate 4301 (CHR ''1'') @ ''/10'')
          = Inl ValueError"
    by (simp only: extract_score_def option.case py_int_def length_replicate int_max_str_digits_def)
       simp
  then show ?thesis
    by (simp only: parse_def sum.case)
qed

text \<open>
  Claim C5, amended: the parsing of a response returns a result for every response,
  whatever headings it has or lacks, in whatever order and however often, and whatever
  else stands in it, unless the digits of the first match of the score pattern are more
  than \<^verbatim>\<open>int\<close> converts (4300); in that one case it raises \<^verbatim>\<open>ValueError\<close>. No other
  exception of the model is raised: an entry of \<^verbatim>\<open>sections\<close> that is appended to is
  always a list.
\<close>

theorem parse_total_up_to_digit_limit:
  "(if \<exists>ds. re_search_score raw = Some ds \<and> int_max_str_digits < length ds
    then parse raw = Inl ValueError
    else \<exists>r. parse raw = Inr r)"
  using parse_cases [of raw] by (auto split: if_splits)

text \<open>
  Claim C10, as the specification states it: the score of every parsed response is absent
  or lies between 1 and 10. The program takes whatever digits stand before \<^verbatim>\<open>/10\<close>: the
  responses below give the scores 0 and 99.
\<close>

theorem score_range_counterexample:
  "map_sum id (\<lambda>r. (score r, score_in_range (score r)))
     (parse ''### Completeness Score: 0/10'') = Inr (Some 0, False) \<and>
   map_sum id (\<lambda>r. (score r, score_in_range (score r)))
     (parse ''### Completeness Score: 99/10'') = Inr (Some 99, False)"
  by (simp add: parse_def extract_score_def score_at_def ascii_lower_def is_space_def
      is_digit_def py_int_def int_max_str_digits_def dec_val_def digit_val_def split_nl_def
      scan_step_def init_state_def score_in_range_def)

text \<open>
  Claim C10, amended: the score of every parsed response is absent, when the pattern has
  no match in the response, or else the decimal value of the digits of the first match, a
  non-empty run of at most 4300 digits: a non-negative integer below \<open>10\<close> to the power of
  the number of digits, not confined to the range from 1 to 10.
\<close>

theorem score_absent_or_natural:
  assumes "parse raw = Inr r"
  shows "(re_search_score raw = None \<and> score r = None) \<or>
         (\<exists>ds. re_search_score raw = Some ds \<and> ds \<noteq> [] \<and> list_all is_digit ds \<and>
               length ds \<le> int_max_str_digits \<and>
               score r = Some (dec_val ds) \<and> 0 \<le> dec_val ds \<and> dec_val ds < 10 ^ length ds)"
proof -
  from parse_cases [of raw] show ?thesis
  proof
    assume "re_search_score raw = None \<and> (\<exists>r. parse raw = Inr r \<and> score r = None)"
    with assms show ?thesis by auto
  next
    assume "\<exists>ds. re_search_score raw = Some ds \<and> ds \<noteq> [] \<and> list_all is_digit ds \<and>
         (if length ds \<le> int_max_str_digits
          then \<exists>r. parse raw = Inr r \<and> score r = Some (dec_val ds)
          else parse raw = Inl ValueError)"
    then obtain ds where d: "re_search_score raw = Some ds" "ds \<noteq> []" "list_all is_digit ds"
      and e: "if length ds \<le> int_max_str_digits
          then \<exists>r. parse raw = Inr r \<and> score r = Some (dec_val ds)
          else parse raw = Inl ValueError"
      by (elim exE conjE)
    from e assms have "length ds \<le> int_max_str_digits" "score r = Some (dec_val ds)"
      by (auto split: if_splits)
    with d dec_val_nonneg [of ds] dec_val_bound [of ds] show ?thesis by blast
  qed
qed

theorem score_absent_or_natural_witness:
  "map_sum id score (parse ''### Completeness Score: 99/10'') = Inr (Some 99) \<and>
   re_search_score ''### Completeness Score: 99/10'' = Some ''99'' \<and>
   dec_val ''99'' = 99"
proof -
  have p: "parse ''### Completeness Score: 99/10''
             = Inr \<lparr>score = Some 99, section_lists = (\<lambda>_. None),
                    full_response = ''### Completeness Score: 99/10''\<rparr>"
    by (simp add: parse_def extract_score_def score_at_def ascii_lower_def is_space_def
      is_digit_def py_int_def int_max_str_digits_def dec_val_def digit_val_def split_nl_def
      scan_step_def init_state_def)
  have s: "re_search_score ''### Completeness Score: 99/10'' = Some ''99''"
    by (simp add: score_at_def ascii_lower_def is_space_def is_digit_def)
  from score_absent_or_natural [OF p] s have "dec_val ''99'' = 99"
    by simp
  with p s show ?thesis by simp
qed

section \<open>PDF text extraction\<close>

lemma read_pages_texts:
  "read_pages acc (map PageText texts) = (acc @ concat (map (\<lambda>t. t @ [CHR 0x0A]) texts), None)"
  by (induction texts arbitrary: acc) simp_all

lemma read_pages_fails:
  "read_pages acc (map PageText texts @ PageFails e # rest)
     = (acc @ concat (map (\<lambda>t. t @ [CHR 0x0A]) texts), Some e)"
  by (induction texts arbitrary: acc) simp_all

lemma terminated_join:
  "concat (map (\<lambda>t. t @ [CHR 0x0A]) (t # texts)) = join_nl (t # texts) @ [CHR 0x0A]"
proof (induction texts arbitrary: t)
  case Nil
  show ?case by simp
next
  case (Cons a texts)
  have "concat (map (\<lambda>t. t @ [CHR 0x0A]) (t # a # texts))
          = t @ CHR 0x0A # concat (map (\<lambda>t. t @ [CHR 0x0A]) (a # texts))"
    by simp
  also have "\<dots> = t @ CHR 0x0A # (join_nl (a # texts) @ [CHR 0x0A])"
    by (simp only: Cons.IH)
  also have "\<dots> = join_nl (t # a # texts) @ [CHR 0x0A]"
    by simp
  finally show ?case .
qed

lemma read_pages_none:
  "snd (read_pages acc pages) = None \<Longrightarrow> \<exists>texts. pages = map PageText texts"
proof (induction acc pages rule: read_pages.induct)
  case (1 lab_text)
  then show ?case by simp
next
  case (2 lab_text t pages)
  then obtain texts where "pages = map PageText texts" by auto
  then have "PageText t # pages = map PageText (t # texts)" by simp
  then show ?case by (rule exI)
next
  case (3 lab_text e pages)
  then show ?case by simp
qed

lemma extract_pdf_texts:
  "extract_pdf (Document (map PageText texts))
     = (concat (map (\<lambda>t. t @ [CHR 0x0A]) texts), PdfExtracted)"
  by (simp add: extract_pdf_def read_pages_texts)

text \<open>
  Claim C6, as the specification states it: a document of \<open>N\<close> pages is extracted to the
  page texts with \<open>N - 1\<close> newlines between them. For two pages the program returns two
  newlines, one of them after the last page.
\<close>

theorem extract_pdf_separators_counterexample:
  "fst (extract_pdf (Document [PageText ''Title'', PageText ''Results'']))
     \<noteq> spec_extract [''Title'', ''Results''] \<and>
   count_list (fst (extract_pdf (Document [PageText ''Title'', PageText ''Results'']))) (CHR 0x0A) = 2"
  by (simp add: extract_pdf_def spec_extract_def)

text \<open>
  Claim C6, amended: for a document whose pages all deliver their text, the extraction
  returns the page texts in page order, each followed by a newline: \<open>N\<close> newlines are
  added for \<open>N\<close> pages, so that for at least one page the result is the text with \<open>N - 1\<close>
  separators followed by one more newline. The result is a function of the document:
  extracting the same document again gives the same text.
\<close>

theorem extract_pdf_terminators:
  "extract_pdf (Document (map PageText texts))
     = (concat (map (\<lambda>t. t @ [CHR 0x0A]) texts), PdfExtracted) \<and>
   fst (extract_pdf (Document (map PageText (t # texts)))) = spec_extract (t # texts) @ [CHR 0x0A]"
proof -
  have "fst (extract_pdf (Document (map PageText (t # texts))))
          = concat (map (\<lambda>t. t @ [CHR 0x0A]) (t # texts))"
    by (simp only: extract_pdf_texts fst_conv)
  also have "\<dots> = spec_extract (t # texts) @ [CHR 0x0A]"
    by (simp only: terminated_join spec_extract_def)
  finally show ?thesis using extract_pdf_texts by blast
qed

text \<open>
  Claim C7. A page without any text (its text is the empty string) contributes an empty
  segment, that is only its newline, and the extraction succeeds. The extraction succeeds
  exactly when the bytes open as a document and every page delivers its text; it reports a
  read error when opening raises (with that exception) and when a page raises (with the
  exception of the first such page).
\<close>

theorem extract_pdf_failures:
  "extract_pdf (Document (map PageText before @ PageText [] # map PageText after))
     = (concat (map (\<lambda>t. t @ [CHR 0x0A]) before) @ [CHR 0x0A]
          @ concat (map (\<lambda>t. t @ [CHR 0x0A]) after), PdfExtracted) \<and>
   (snd (extract_pdf d) = PdfExtracted) = (\<exists>texts. d = Document (map PageText texts)) \<and>
   extract_pdf (NotAPdf e) = ([], PdfReadError e) \<and>
   extract_pdf (Document (map PageText texts @ PageFails e # rest))
     = (concat (map (\<lambda>t. t @ [CHR 0x0A]) texts), PdfReadError e)"
proof -
  have a: "extract_pdf (Document (map PageText before @ PageText [] # map PageText after))
     = (concat (map (\<lambda>t. t @ [CHR 0x0A]) before) @ [CHR 0x0A]
          @ concat (map (\<lambda>t. t @ [CHR 0x0A]) after), PdfExtracted)"
    using read_pages_texts [of "[]" "before @ [] # after"]
    by (simp add: extract_pdf_def)
  have b: "(snd (extract_pdf d) = PdfExtracted) = (\<exists>texts. d = Document (map PageText texts))"
  proof (cases d)
    case (NotAPdf m)
    then show ?thesis by (simp add: extract_pdf_def)
  next
    case (Document pages)
    show ?thesis
    proof
      assume "snd (extract_pdf d) = PdfExtracted"
      then have "snd (read_pages [] pages) = None"
        by (auto simp: extract_pdf_def Document split: prod.splits option.splits)
      from read_pages_none [OF this] show "\<exists>texts. d = Document (map PageText texts)"
        by (simp add: Document)
    next
      assume "\<exists>texts. d = Document (map PageText texts)"
      then show "snd (extract_pdf d) = PdfExtracted"
        by (auto simp: extract_pdf_def read_pages_texts)
    qed
  qed
  have c: "extract_pdf (NotAPdf e) = ([], PdfReadError e)"
    by (simp add: extract_pdf_def)
  have d: "extract_pdf (Document (map PageText texts @ PageFails e # rest))
     = (concat (map (\<lambda>t. t @ [CHR 0x0A]) texts), PdfReadError e)"
    by (simp add: extract_pdf_def read_pages_fails)
  from a b c d show ?thesis by blast
qed

section \<open>The AI client and the analyzer\<close>

text \<open>
  Claim C8. When the text of the report is empty or consists of whitespace only, a run of
  the analyzer builds no prompt and posts no request, whatever the buttons and the
  question field hold: it returns no completion and leaves the client's state as it was.
\<close>

theorem blank_text_no_request:
  assumes "list_all is_space lab_text"
  shows "analyzer_run endpoint api_key lab_text w st = ((None, None), st)"
  using assms by (simp add: analyzer_run_def strip_blank)

theorem blank_text_no_request_witness:
  "list_all is_space [CHR 0x20, CHR 0x0A, CHR 0x09, CHR 0x20] \<and>
   analyzer_run (\<lambda>req. Response 200 ''ok'' (Inr ''### Completeness Score: 7/10''))
     ''key'' [CHR 0x20, CHR 0x0A, CHR 0x09, CHR 0x20]
     \<lparr>analyze_button = True, user_question = ''Why?'', ask_button = True\<rparr>
     \<lparr>posted = [], shown = []\<rparr>
   = ((None, None), \<lparr>posted = [], shown = []\<rparr>)"
proof -
  have h: "list_all is_space [CHR 0x20, CHR 0x0A, CHR 0x09, CHR 0x20]"
    by (simp add: is_space_def)
  show ?thesis using h blank_text_no_request [OF h] by simp
qed

text \<open>
  Claim C9. When the endpoint answers the request with status 401, \<^verbatim>\<open>query_ai\<close> returns
  no completion, shows the message about the invalid API key (and no other), and has
  posted exactly one request: there is no second attempt.
\<close>

theorem query_ai_unauthorized:
  assumes "endpoint (make_request api_key prompt) = Response 401 body content"
  shows "query_ai endpoint api_key prompt st =
           (None, \<lparr>posted = posted st @ [make_request api_key prompt],
                   shown = shown st @ [InvalidApiKey]\<rparr>)"
  using assms by (simp add: query_ai_def Let_def st_error_def)

theorem query_ai_unauthorized_witness:
  "(\<lambda>req. Response 401 ''Unauthorized'' (Inr ''ignored'')) (make_request ''key'' ''prompt'')
     = Response 401 ''Unauthorized'' (Inr ''ignored'') \<and>
   query_ai (\<lambda>req. Response 401 ''Unauthorized'' (Inr ''ignored'')) ''key'' ''prompt''
     \<lparr>posted = [], shown = []\<rparr>
   = (None, \<lparr>posted = [make_request ''key'' ''prompt''], shown = [InvalidApiKey]\<rparr>)"
  using query_ai_unauthorized [of "\<lambda>req. Response 401 ''Unauthorized'' (Inr ''ignored'')"
      "''key''" "''prompt''" "''Unauthorized''" "Inr ''ignored''" "\<lparr>posted = [], shown = []\<rparr>"]
  by simp

section \<open>The section scan\<close>

lemma scan_step_heading:
  "heading_of line = Some n \<Longrightarrow> scan_step st line = Inr (start_section n st)"
  by (auto simp: heading_of_def scan_step_def split: if_splits)

lemma scan_step_plain:
  "plain line \<Longrightarrow> scan_step st line =
     (case current_section st of
        None \<Rightarrow> Inr st
      | Some cur \<Rightarrow>
          if nonblank line then
            (case sections st cur of
               None \<Rightarrow> Inl AttributeError
             | Some ls \<Rightarrow> Inr (st\<lparr>sections := (sections st)(cur \<mapsto> ls @ [line])\<rparr>))
          else Inr st)"
  by (auto simp: plain_def heading_of_def scan_step_def nonblank_def split: if_splits option.splits)

lemma scan_lines_append:
  "scan_lines st (a @ b) = (case scan_lines st a of Inl e \<Rightarrow> Inl e | Inr st' \<Rightarrow> scan_lines st' b)"
  by (induction a arbitrary: st) (auto split: sum.splits)

lemma scan_plain_no_cursor:
  "current_section st = None \<Longrightarrow> list_all plain ls \<Longrightarrow> scan_lines st ls = Inr st"
  by (induction ls) (simp_all add: scan_step_plain)

lemma scan_plain_cursor:
  "current_section st = Some cur \<Longrightarrow> sections st cur = Some acc \<Longrightarrow> list_all plain ls \<Longrightarrow>
   scan_lines st ls = Inr (st\<lparr>sections := (sections st)(cur \<mapsto> acc @ filter nonblank ls)\<rparr>)"
proof (induction ls arbitrary: st acc)
  case Nil
  then show ?case by (simp add: fun_upd_idem)
next
  case (Cons l ls)
  then have pl: "plain l" and pls: "list_all plain ls" by simp_all
  show ?case
  proof (cases "nonblank l")
    case True
    let ?st1 = "st\<lparr>sections := (sections st)(cur \<mapsto> acc @ [l])\<rparr>"
    have s: "scan_step st l = Inr ?st1"
      using Cons.prems(1,2) True by (simp add: scan_step_plain [OF pl])
    have e: "filter nonblank (l # ls) = l # filter nonblank ls"
      using True by simp
    have "scan_lines st (l # ls) = scan_lines ?st1 ls"
      by (simp add: s)
    also have "\<dots> = Inr (?st1\<lparr>sections := (sections ?st1)(cur \<mapsto> (acc @ [l]) @ filter nonblank ls)\<rparr>)"
      by (rule Cons.IH) (simp_all add: Cons.prems pls)
    also have "?st1\<lparr>sections := (sections ?st1)(cur \<mapsto> (acc @ [l]) @ filter nonblank ls)\<rparr>
                 = st\<lparr>sections := (sections st)(cur \<mapsto> acc @ filter nonblank (l # ls))\<rparr>"
      by (simp only: e) simp
    finally show ?thesis .
  next
    case False
    have s: "scan_step st l = Inr st"
      using Cons.prems(1) False by (simp add: scan_step_plain [OF pl])
    show ?thesis using False Cons.IH [OF Cons.prems(1,2) pls] by (simp add: s)
  qed
qed

lemma scan_other:
  "wf_state st \<Longrightarrow> current_section st \<noteq> Some X \<Longrightarrow> list_all (\<lambda>l. heading_of l \<noteq> Some X) ls \<Longrightarrow>
   \<exists>st'. scan_lines st ls = Inr st' \<and> sections st' X = sections st X"
proof (induction ls arbitrary: st)
  case Nil
  then show ?case by simp
next
  case (Cons l ls)
  from scan_step_total [OF Cons.prems(1), of l] obtain st1
    where s: "scan_step st l = Inr st1" and w: "wf_state st1" by blast
  have keep: "sections st1 X = sections st X \<and> current_section st1 \<noteq> Some X"
  proof (cases "heading_of l")
    case None
    then have "plain l" by (simp add: plain_def)
    from scan_step_plain [OF this, of st] s Cons.prems(2) show ?thesis
      by (auto split: option.splits if_splits)
  next
    case (Some Y)
    with Cons.prems(3) have "Y \<noteq> X" by auto
    with scan_step_heading [OF Some, of st] s show ?thesis
      by (auto simp: start_section_def)
  qed
  from Cons.prems(3) have "list_all (\<lambda>l. heading_of l \<noteq> Some X) ls" by simp
  from Cons.IH [OF w _ this] keep obtain st' where
    "scan_lines st1 ls = Inr st'" "sections st' X = sections st1 X" by blast
  with keep show ?case by (simp add: s)
qed

lemma scan_after_heading:
  assumes w: "wf_state st" and h: "heading_of h = Some X"
    and post: "list_all (\<lambda>l. heading_of l \<noteq> Some X) post"
  shows "\<exists>st'. scan_lines st (h # post) = Inr st' \<and>
           sections st' X = Some (filter nonblank (takeWhile plain post))"
proof -
  let ?st0 = "start_section X st"
  let ?a = "takeWhile plain post" and ?b = "dropWhile plain post"
  have s0: "scan_step st h = Inr ?st0" by (rule scan_step_heading [OF h])
  have pa: "list_all plain ?a"
    by (simp add: list_all_iff) (meson set_takeWhileD)
  have "scan_lines ?st0 ?a
          = Inr (?st0\<lparr>sections := (sections ?st0)(X \<mapsto> [] @ filter nonblank ?a)\<rparr>)"
    by (rule scan_plain_cursor [OF _ _ pa]) (simp_all add: start_section_def)
  then have sa: "scan_lines ?st0 ?a
          = Inr (?st0\<lparr>sections := (sections ?st0)(X \<mapsto> filter nonblank ?a)\<rparr>)"
    by simp
  let ?st1 = "?st0\<lparr>sections := (sections ?st0)(X \<mapsto> filter nonblank ?a)\<rparr>"
  have x1: "sections ?st1 X = Some (filter nonblank ?a)" by simp
  have w1: "wf_state ?st1" by (simp add: wf_state_def start_section_def)
  have "\<exists>st'. scan_lines ?st1 ?b = Inr st' \<and> sections st' X = sections ?st1 X"
  proof (cases ?b)
    case Nil
    have "scan_lines ?st1 [] = Inr ?st1" by simp
    then show ?thesis unfolding Nil by blast
  next
    case (Cons l rest)
    then have nl: "\<not> plain l" by (metis hd_dropWhile list.sel(1) list.distinct(1))
    have "set ?b \<subseteq> set post" by (rule set_dropWhileD [THEN subsetI])
    with post Cons have l: "heading_of l \<noteq> Some X"
      and rest: "list_all (\<lambda>l. heading_of l \<noteq> Some X) rest"
      by (auto simp: list_all_iff)
    from nl obtain Y where y: "heading_of l = Some Y" by (auto simp: plain_def)
    with l have yx: "Y \<noteq> X" by simp
    let ?st2 = "start_section Y ?st1"
    have s2: "scan_step ?st1 l = Inr ?st2" by (rule scan_step_heading [OF y])
    have "\<exists>st'. scan_lines ?st2 rest = Inr st' \<and> sections st' X = sections ?st2 X"
      by (rule scan_other [OF wf_start _ rest]) (simp add: start_section_def yx)
    moreover have "sections ?st2 X = sections ?st1 X"
      using yx by (simp add: start_section_def)
    ultimately show ?thesis by (simp add: Cons s2)
  qed
  then obtain st' where b: "scan_lines ?st1 ?b = Inr st'" and x: "sections st' X = sections ?st1 X"
    by blast
  have "scan_lines st (h # post) = scan_lines ?st0 (?a @ ?b)" by (simp add: s0)
  also have "\<dots> = scan_lines ?st1 ?b" by (simp only: scan_lines_append sa sum.case)
  finally have "scan_lines st (h # post) = Inr st'" by (simp add: b)
  with x x1 show ?thesis by simp
qed

lemma stable_init: "stable lines init_state"
  by (simp add: stable_def init_state_def)

lemma stable_step:
  assumes "stable lines st" and "scan_step st l = Inr st'" and "l \<in> set lines"
  shows "stable lines st'"
proof (cases "heading_of l")
  case None
  then have "plain l" by (simp add: plain_def)
  from scan_step_plain [OF this, of st] assms show ?thesis
    by (auto simp: stable_def split: option.splits if_splits)
next
  case (Some Y)
  from scan_step_heading [OF Some, of st] assms show ?thesis
    by (auto simp: stable_def start_section_def split: if_splits)
qed

lemma stable_scan:
  "stable lines st \<Longrightarrow> scan_lines st ls = Inr st' \<Longrightarrow> set ls \<subseteq> set lines \<Longrightarrow> stable lines st'"
proof (induction ls arbitrary: st)
  case Nil
  then show ?case by simp
next
  case (Cons l ls)
  from Cons.prems(2) obtain st1 where s: "scan_step st l = Inr st1" and r: "scan_lines st1 ls = Inr st'"
    by (auto split: sum.splits)
  from Cons.prems(3) have "l \<in> set lines" "set ls \<subseteq> set lines" by simp_all
  from stable_step [OF Cons.prems(1) s this(1)] Cons.IH [OF _ r this(2)] show ?case by blast
qed

lemma scan_section_result:
  assumes h: "heading_of h = Some name"
    and post: "list_all (\<lambda>l. heading_of l \<noteq> Some name) post"
  shows "\<exists>st. scan_lines init_state (pre @ h # post) = Inr st \<and>
           sections st name = Some (filter nonblank (takeWhile plain post))"
proof -
  from scan_lines_total [OF wf_init, of pre] obtain st1
    where a: "scan_lines init_state pre = Inr st1" and w: "wf_state st1" by blast
  from scan_after_heading [OF w h post] obtain st
    where b: "scan_lines st1 (h # post) = Inr st"
      and c: "sections st name = Some (filter nonblank (takeWhile plain post))" by blast
  have "scan_lines init_state (pre @ h # post) = Inr st"
    by (simp only: scan_lines_append a b sum.case)
  with c show ?thesis by blast
qed

text \<open>
  Claim C2. Whatever stands before the first line that is recognised as a heading has no
  part in the sections: the scan of all the lines of the response ends in the state in
  which the scan of the remaining lines alone ends. No section list ever holds a blank
  line (a line of whitespace only, the empty line included), and every line of a section
  list is one of the lines from that first heading on. The response itself is kept in full
  beside the sections: whenever the score converts, the parsed response holds the score,
  these sections and the unchanged response.
\<close>

theorem lines_before_first_heading_dropped:
  assumes "split_nl raw = pre @ rest" and "list_all plain pre"
  shows "\<exists>st. scan_lines init_state (split_nl raw) = Inr st \<and>
           scan_lines init_state rest = Inr st \<and>
           (\<forall>name ls. sections st name = Some ls \<longrightarrow>
              list_all (\<lambda>l. \<not> list_all is_space l) ls \<and> set ls \<subseteq> set rest) \<and>
           (\<forall>sc. extract_score raw = Inr sc \<longrightarrow>
              parse raw = Inr \<lparr>score = sc, section_lists = sections st, full_response = raw\<rparr>)"
proof -
  from parse_scan [of raw] obtain st
    where b: "scan_lines init_state (split_nl raw) = Inr st"
      and p: "parse raw = (case extract_score raw of
                    Inl e \<Rightarrow> Inl e
                  | Inr sc \<Rightarrow> Inr \<lparr>score = sc, section_lists = sections st, full_response = raw\<rparr>)"
    by blast
  have pre: "scan_lines init_state pre = Inr init_state"
    by (rule scan_plain_no_cursor [OF _ assms(2)]) (simp add: init_state_def)
  have r: "scan_lines init_state rest = Inr st"
    using b by (simp only: assms(1) scan_lines_append pre sum.case)
  from stable_scan [OF stable_init r subset_refl]
  have "\<forall>name ls. sections st name = Some ls \<longrightarrow> list_all nonblank ls \<and> set ls \<subseteq> set rest"
    by (simp add: stable_def)
  then have n: "\<forall>name ls. sections st name = Some ls \<longrightarrow>
              list_all (\<lambda>l. \<not> list_all is_space l) ls \<and> set ls \<subseteq> set rest"
    by (simp add: list_all_iff nonblank_iff)
  have q: "\<forall>sc. extract_score raw = Inr sc \<longrightarrow>
              parse raw = Inr \<lparr>score = sc, section_lists = sections st, full_response = raw\<rparr>"
    by (simp add: p)
  from b r n q show ?thesis by blast
qed

text \<open>
  Claim C3, amended: a line resets the list of the heading whose branch it takes, that is
  of the first of the three headings, in the order Missing Sections, Improvement Tips,
  Detailed Feedback, that occurs in it. After the last line that takes the branch of a
  heading, the scan of the response ends with the list of that heading holding exactly the
  non-blank lines that follow it up to the next line recognised as a heading; whatever the
  section held before is gone. Whenever the score converts, these are the sections of the
  parsed response.
\<close>

theorem last_heading_occurrence_wins:
  assumes "split_nl raw = pre @ h # post"
    and "heading_of h = Some name"
    and "list_all (\<lambda>l. heading_of l \<noteq> Some name) post"
  shows "scan_step st h = Inr (start_section name st) \<and>
         sections (start_section name st) name = Some [] \<and>
         (\<exists>st'. scan_lines init_state (split_nl raw) = Inr st' \<and>
              sections st' name = Some (filter nonblank (takeWhile plain post)) \<and>
              (\<forall>sc. extract_score raw = Inr sc \<longrightarrow>
                 parse raw = Inr \<lparr>score = sc, section_lists = sections st', full_response = raw\<rparr>))"
proof -
  from parse_scan [of raw] obtain st'
    where b: "scan_lines init_state (split_nl raw) = Inr st'"
      and p: "parse raw = (case extract_score raw of
                    Inl e \<Rightarrow> Inl e
                  | Inr sc \<Rightarrow> Inr \<lparr>score = sc, section_lists = sections st', full_response = raw\<rparr>)"
    by blast
  from scan_section_result [OF assms(2,3), of pre] b
  have c: "sections st' name = Some (filter nonblank (takeWhile plain post))"
    by (simp add: assms(1))
  have q: "\<forall>sc. extract_score raw = Inr sc \<longrightarrow>
              parse raw = Inr \<lparr>score = sc, section_lists = sections st', full_response = raw\<rparr>"
    by (simp add: p)
  from b c q have "\<exists>st'. scan_lines init_state (split_nl raw) = Inr st' \<and>
              sections st' name = Some (filter nonblank (takeWhile plain post)) \<and>
              (\<forall>sc. extract_score raw = Inr sc \<longrightarrow>
                 parse raw = Inr \<lparr>score = sc, section_lists = sections st', full_response = raw\<rparr>)"
    by blast
  moreover have "scan_step st h = Inr (start_section name st)"
    by (rule scan_step_heading [OF assms(2)])
  moreover have "sections (start_section name st) name = Some []"
    by (simp add: start_section_def)
  ultimately show ?thesis by blast
qed

lemmas eval_defs = parse_def extract_score_def score_at_def ascii_lower_def is_space_def
      is_digit_def py_int_def int_max_str_digits_def dec_val_def digit_val_def split_nl_def scan_step_def
      init_state_def start_section_def py_strip_def nonblank_def plain_def heading_of_def

text \<open>
  Two responses for C2: one with a line of prose and a blank line around a heading, and the
  response without any heading, whose three sections all stay absent.
\<close>

theorem lines_before_first_heading_dropped_witness:
  "split_nl raw_intro = [''Intro''] @ [''### Improvement Tips:'', [], ''Be precise''] \<and>
   list_all plain [''Intro''] \<and>
   map_sum id (\<lambda>r. (section_lists r MissingSections, section_lists r ImprovementTips,
                     section_lists r DetailedFeedback, full_response r)) (parse raw_intro)
     = Inr (None, Some [''Be precise''], None, raw_intro) \<and>
   split_nl ''no headings here at all'' = [''no headings here at all''] @ [] \<and>
   list_all plain [''no headings here at all''] \<and>
   map_sum id (\<lambda>r. (section_lists r MissingSections, section_lists r ImprovementTips,
                     section_lists r DetailedFeedback, full_response r))
     (parse ''no headings here at all'')
     = Inr (None, None, None, ''no headings here at all'')"
proof -
  have h1: "split_nl raw_intro = [''Intro''] @ [''### Improvement Tips:'', [], ''Be precise'']"
    by (simp add: raw_intro_def split_nl_def)
  have h2: "list_all plain [''Intro'']"
    by (simp add: plain_def heading_of_def)
  have g1: "split_nl ''no headings here at all'' = [''no headings here at all''] @ []"
    by (simp add: split_nl_def)
  have g2: "list_all plain [''no headings here at all'']"
    by (simp add: plain_def heading_of_def)
  have s1: "scan_lines init_state [''### Improvement Tips:'', [], ''Be precise'']
              = Inr \<lparr>current_section = Some ImprovementTips,
                     sections = (\<lambda>_. None)(ImprovementTips \<mapsto> [''Be precise''])\<rparr>"
    by (simp add: scan_step_def init_state_def start_section_def py_strip_def is_space_def)
  have e1: "extract_score raw_intro = Inr None"
    by (simp add: raw_intro_def extract_score_def score_at_def ascii_lower_def)
  have e2: "extract_score ''no headings here at all'' = Inr None"
    by (simp add: extract_score_def score_at_def ascii_lower_def)
  from lines_before_first_heading_dropped [OF h1 h2] s1 e1 have
    "parse raw_intro = Inr \<lparr>score = None,
        section_lists = (\<lambda>_. None)(ImprovementTips \<mapsto> [''Be precise'']),
        full_response = raw_intro\<rparr>"
    by auto
  then have c1: "map_sum id (\<lambda>r. (section_lists r MissingSections, section_lists r ImprovementTips,
                     section_lists r DetailedFeedback, full_response r)) (parse raw_intro)
     = Inr (None, Some [''Be precise''], None, raw_intro)"
    by simp
  from lines_before_first_heading_dropped [OF g1 g2] e2 have
    "parse ''no headings here at all'' = Inr \<lparr>score = None,
        section_lists = sections init_state,
        full_response = ''no headings here at all''\<rparr>"
    by auto
  then have c2: "map_sum id (\<lambda>r. (section_lists r MissingSections, section_lists r ImprovementTips,
                     section_lists r DetailedFeedback, full_response r))
     (parse ''no headings here at all'')
     = Inr (None, None, None, ''no headings here at all'')"
    by (simp add: init_state_def)
  from h1 h2 c1 g1 g2 c2 show ?thesis by blast
qed

text \<open>
  A response for C3 in which the heading of the tips comes twice: only the lines after
  the second one are kept.
\<close>

theorem last_heading_occurrence_wins_witness:
  "split_nl raw_repeated
     = [''### Improvement Tips:'', ''old tip'', ''### Missing Sections:'', ''none'']
         @ ''### Improvement Tips:'' # [''new tip'', [], ''more''] \<and>
   heading_of ''### Improvement Tips:'' = Some ImprovementTips \<and>
   list_all (\<lambda>l. heading_of l \<noteq> Some ImprovementTips) [''new tip'', [], ''more''] \<and>
   map_sum id (\<lambda>r. section_lists r ImprovementTips) (parse raw_repeated)
     = Inr (Some [''new tip'', ''more''])"
proof -
  have h1: "split_nl raw_repeated
     = [''### Improvement Tips:'', ''old tip'', ''### Missing Sections:'', ''none'']
         @ ''### Improvement Tips:'' # [''new tip'', [], ''more'']"
    by (simp add: raw_repeated_def split_nl_def)
  have h2: "heading_of ''### Improvement Tips:'' = Some ImprovementTips"
    by (simp add: heading_of_def)
  have h3: "list_all (\<lambda>l. heading_of l \<noteq> Some ImprovementTips) [''new tip'', [], ''more'']"
    by (simp add: heading_of_def)
  have e: "filter nonblank (takeWhile plain [''new tip'', [], ''more'']) = [''new tip'', ''more'']"
    by (simp add: plain_def heading_of_def nonblank_def py_strip_def is_space_def)
  have x: "extract_score raw_repeated = Inr None"
    by (simp add: raw_repeated_def extract_score_def score_at_def ascii_lower_def)
  from last_heading_occurrence_wins [OF h1 h2 h3, of init_state] obtain st' :: scan_state
    where l: "sections st' ImprovementTips
                = Some (filter nonblank (takeWhile plain [''new tip'', [], ''more'']))"
      and q: "\<forall>sc. extract_score raw_repeated = Inr sc \<longrightarrow>
                 parse raw_repeated
                   = Inr \<lparr>score = sc, section_lists = sections st', full_response = raw_repeated\<rparr>"
    by blast
  from q x have p: "parse raw_repeated
                   = Inr \<lparr>score = None, section_lists = sections st', full_response = raw_repeated\<rparr>"
    by blast
  from l have "sections st' ImprovementTips = Some [''new tip'', ''more'']"
    by (simp only: e)
  then have "map_sum id (\<lambda>r. section_lists r ImprovementTips) (parse raw_repeated)
     = Inr (Some [''new tip'', ''more''])"
    by (simp add: p)
  with h1 h2 h3 show ?thesis by blast
qed

text \<open>
  Claim C3, as the specification states it: wherever the text of a heading occurs on a
  line, the section of that heading starts afresh, so that the section holds what follows
  the last such line. In the response below the text of the tips heading occurs last on
  the third line, but that line also holds the heading of the missing sections and takes
  its branch: the tips keep the line \<open>a\<close> and the line \<open>b\<close> goes to the missing sections.
\<close>

theorem last_occurrence_counterexample:
  "map_sum id (\<lambda>r. (section_lists r MissingSections, section_lists r ImprovementTips))
     (parse raw_two_headings) = Inr (Some [''b''], Some [''a'']) \<and>
   spec_last_occurrence_content ''### Improvement Tips:'' (split_nl raw_two_headings) = [''b'']"
  by (simp add: raw_two_headings_def spec_last_occurrence_content_def eval_defs)

section \<open>The first match of the score pattern\<close>

lemma regex_score_match_iff: "regex_score_match text k ds \<longleftrightarrow> score_at (drop k text) = Some ds"
  by (simp only: regex_score_match_def score_at_iff)

lemma re_search_score_None: "re_search_score s = None \<longleftrightarrow> (\<forall>k. score_at (drop k s) = None)"
proof (induction s)
  case Nil
  then show ?case by simp
next
  case (Cons c cs)
  have "(\<forall>k. score_at (drop k (c # cs)) = None)
          \<longleftrightarrow> score_at (c # cs) = None \<and> (\<forall>k. score_at (drop k cs) = None)"
  proof
    assume a: "\<forall>k. score_at (drop k (c # cs)) = None"
    from a [rule_format, of 0] have "score_at (c # cs) = None" by simp
    moreover have "score_at (drop k cs) = None" for k
      using a [rule_format, of "Suc k"] by simp
    ultimately show "score_at (c # cs) = None \<and> (\<forall>k. score_at (drop k cs) = None)" by blast
  next
    assume a: "score_at (c # cs) = None \<and> (\<forall>k. score_at (drop k cs) = None)"
    show "\<forall>k. score_at (drop k (c # cs)) = None"
    proof
      fix k show "score_at (drop k (c # cs)) = None"
        using a by (cases k) simp_all
    qed
  qed
  with Cons show ?case by (auto split: option.splits)
qed

lemma re_search_score_first:
  "score_at (drop k s) = Some ds \<Longrightarrow> (\<forall>j<k. score_at (drop j s) = None) \<Longrightarrow>
   re_search_score s = Some ds"
proof (induction s arbitrary: k)
  case Nil
  then show ?case by simp
next
  case (Cons c cs)
  show ?case
  proof (cases k)
    case 0
    with Cons.prems(1) show ?thesis by simp
  next
    case (Suc k')
    with Cons.prems(2) have z: "score_at (c # cs) = None" by force
    from Cons.prems(1) Suc have a: "score_at (drop k' cs) = Some ds" by simp
    have b: "\<forall>j<k'. score_at (drop j cs) = None"
    proof (intro allI impI)
      fix j assume "j < k'"
      then have "Suc j < k" by (simp add: Suc)
      with Cons.prems(2) have "score_at (drop (Suc j) (c # cs)) = None" by blast
      then show "score_at (drop j cs) = None" by simp
    qed
    from Cons.IH [OF a b] z show ?thesis by simp
  qed
qed

text \<open>
  Claim C4, as the specification states it: the digit group of the first match is taken as
  the score. In the response below the pattern matches at the very start with a group of
  4301 digits, and no score is taken: the conversion of the group raises \<^verbatim>\<open>ValueError\<close>.
\<close>

theorem score_first_match_counterexample:
  "regex_score_match raw_long_score 0 (replicate 4301 (CHR ''2'')) \<and>
   extract_score raw_long_score = Inl ValueError"
proof -
  have ne: "replicate 4301 (CHR ''2'') \<noteq> []"
    by (simp only: replicate_empty)
  have dg: "list_all is_digit (replicate 4301 (CHR ''2''))"
    by (simp add: list_all_iff is_digit_def)
  have "score_at (drop 0 raw_long_score) = Some (replicate 4301 (CHR ''2''))"
    unfolding raw_long_score_def drop_0 using ne dg by (rule score_at_literal)
  then have a: "regex_score_match raw_long_score 0 (replicate 4301 (CHR ''2''))"
    by (simp only: regex_score_match_iff)
  have "re_search_score raw_long_score = Some (replicate 4301 (CHR ''2''))"
    unfolding raw_long_score_def using ne dg by (rule re_search_score_literal)
  then have b: "extract_score raw_long_score = Inl ValueError"
    by (simp only: extract_score_def option.case py_int_def length_replicate int_max_str_digits_def)
       simp
  from a b show ?thesis by (rule conjI)
qed

text \<open>
  Claim C4, amended: the score is searched with the pattern, the letters of
  \<^verbatim>\<open>Completeness Score:\<close> in any case, anywhere in the response. The score is absent
  exactly when the pattern matches at no position: it is then neither an error nor zero.
  When the pattern matches, the digit group of the first match, the match at the least
  position, is the one converted: its decimal value is the score when the group has at most
  4300 digits, and the conversion raises \<^verbatim>\<open>ValueError\<close> when it has more.
\<close>

theorem score_is_first_match:
  "((extract_score raw = Inr None) = (\<forall>k ds. \<not> regex_score_match raw k ds)) \<and>
   (regex_score_match raw k ds \<and> (\<forall>j<k. \<forall>ds'. \<not> regex_score_match raw j ds')
      \<longrightarrow> extract_score raw =
            (if length ds \<le> int_max_str_digits then Inr (Some (dec_val ds)) else Inl ValueError))"
proof (intro conjI impI)
  show "(extract_score raw = Inr None) = (\<forall>k ds. \<not> regex_score_match raw k ds)"
  proof -
    have "(extract_score raw = Inr None) = (re_search_score raw = None)"
      using extract_score_cases [of raw] by (auto split: if_splits)
    also have "\<dots> = (\<forall>k ds. \<not> regex_score_match raw k ds)"
      by (simp add: re_search_score_None regex_score_match_iff)
    finally show ?thesis .
  qed
next
  assume a: "regex_score_match raw k ds \<and> (\<forall>j<k. \<forall>ds'. \<not> regex_score_match raw j ds')"
  then have "score_at (drop k raw) = Some ds" by (simp add: regex_score_match_iff)
  moreover from a have "\<forall>j<k. score_at (drop j raw) = None"
    by (simp add: regex_score_match_iff)
  ultimately have "re_search_score raw = Some ds" by (rule re_search_score_first)
  with extract_score_cases [of raw]
  show "extract_score raw =
            (if length ds \<le> int_max_str_digits then Inr (Some (dec_val ds)) else Inl ValueError)"
    by auto
qed

text \<open>
  A response for C4 with two matches, the first of them in other letter case, with a line
  break after the colon and with a leading zero: the score is 8, not 9.
\<close>

theorem score_is_first_match_witness:
  "regex_score_match raw_score 2 ''08'' \<and>
   list_all (\<lambda>j. score_at (drop j raw_score) = None) [0, 1] \<and>
   extract_score raw_score = Inr (Some 8)"
proof -
  have m: "score_at (drop 2 raw_score) = Some ''08''"
    by (simp add: raw_score_def score_at_def ascii_lower_def is_space_def is_digit_def)
  have n: "list_all (\<lambda>j. score_at (drop j raw_score) = None) [0, 1]"
    by (simp add: raw_score_def score_at_def ascii_lower_def)
  have h1: "regex_score_match raw_score 2 ''08''"
    using m by (simp only: regex_score_match_iff)
  have h2: "\<forall>j<2. \<forall>ds'. \<not> regex_score_match raw_score j ds'"
  proof (intro allI impI)
    fix j :: nat and ds' assume "j < 2"
    then have "j = 0 \<or> j = 1" by auto
    with n show "\<not> regex_score_match raw_score j ds'"
      by (auto simp: regex_score_match_iff)
  qed
  have v: "dec_val ''08'' = 8"
    by (simp add: dec_val_def digit_val_def)
  have len: "length ''08'' \<le> int_max_str_digits"
    by (simp add: int_max_str_digits_def)
  from score_is_first_match [of raw_score 2 "''08''"] h1 h2 len
  have "extract_score raw_score = Inr (Some (dec_val ''08''))" by simp
  with h1 n v show ?thesis by simp
qed

section \<open>A response with the four headings\<close>

lemma split_acc_ne: "split_acc cur s \<noteq> []"
  by (induction s arbitrary: cur) simp_all

lemma join_nl_Cons: "ls \<noteq> [] \<Longrightarrow> join_nl (l # ls) = l @ CHR 0x0A # join_nl ls"
  by (cases ls) simp_all

lemma join_split_acc: "join_nl (split_acc cur s) = cur @ s"
proof (induction s arbitrary: cur)
  case Nil
  show ?case by simp
next
  case (Cons c cs)
  show ?case
  proof (cases "c = CHR 0x0A")
    case True
    have "join_nl (split_acc cur (c # cs)) = join_nl (cur # split_acc [] cs)"
      using True by simp
    also have "\<dots> = cur @ CHR 0x0A # join_nl (split_acc [] cs)"
      by (rule join_nl_Cons) (rule split_acc_ne)
    also have "\<dots> = cur @ c # cs"
      by (simp only: Cons.IH True append_Nil)
    finally show ?thesis .
  next
    case False
    then show ?thesis by (simp add: Cons.IH)
  qed
qed

lemma join_split: "join_nl (split_nl s) = s"
  by (simp add: split_nl_def join_split_acc)

lemma join_nl_append:
  "A \<noteq> [] \<Longrightarrow> B \<noteq> [] \<Longrightarrow> join_nl (A @ B) = join_nl A @ CHR 0x0A # join_nl B"
proof (induction A)
  case Nil
  then show ?case by simp
next
  case (Cons a A)
  show ?case
  proof (cases "A = []")
    case True
    with Cons.prems(2) show ?thesis by (simp add: join_nl_Cons)
  next
    case False
    have "join_nl ((a # A) @ B) = a @ CHR 0x0A # join_nl (A @ B)"
      using False by (simp add: join_nl_Cons)
    also have "\<dots> = a @ CHR 0x0A # join_nl A @ CHR 0x0A # join_nl B"
      by (simp only: Cons.IH [OF False Cons.prems(2)])
    also have "\<dots> = join_nl (a # A) @ CHR 0x0A # join_nl B"
      using False by (simp add: join_nl_Cons)
    finally show ?thesis .
  qed
qed


lemma match_lit_ci_prefix:
  assumes "match_lit_ci p (a @ c # b) = Some r" and "ascii_lower c \<notin> set p"
  shows "starts_with p (map ascii_lower a)"
  using assms
proof (induction p arbitrary: a)
  case Nil
  show ?case by simp
next
  case (Cons x ps)
  note prems = Cons.prems and IH = Cons.IH
  show ?case
  proof (cases a)
    case Nil
    with prems show ?thesis by (auto split: if_splits)
  next
    case (Cons y ys)
    with prems(1) have e: "ascii_lower y = x" and m: "match_lit_ci ps (ys @ c # b) = Some r"
      by (auto split: if_splits)
    from prems(2) have "ascii_lower c \<notin> set ps" by simp
    from IH [OF m this] e show ?thesis by (simp add: Cons)
  qed
qed

lemma match_lit_ci_none:
  assumes "\<not> contains p (map ascii_lower (c # cs))" and "CHR 0x0A \<notin> set p"
  shows "match_lit_ci p ((c # cs) @ CHR 0x0A # Y) = None"
proof (cases "match_lit_ci p ((c # cs) @ CHR 0x0A # Y)")
  case None
  then show ?thesis .
next
  case (Some r)
  have "ascii_lower (CHR 0x0A) \<notin> set p"
    using assms(2) by (simp add: ascii_lower_def)
  from match_lit_ci_prefix [OF Some this] have "starts_with p (map ascii_lower (c # cs))" .
  then have "contains p (map ascii_lower (c # cs))" by simp
  with assms(1) show ?thesis by simp
qed

lemma score_at_no_lit: "match_lit_ci ''completeness score:'' s = None \<Longrightarrow> score_at s = None"
  by (simp only: score_at_def option.case)

lemma re_search_score_skip:
  assumes "\<not> contains ''completeness score:'' (map ascii_lower P)"
  shows "re_search_score (P @ CHR 0x0A # Y) = re_search_score (CHR 0x0A # Y)"
  using assms
proof (induction P)
  case Nil
  show ?case by simp
next
  case (Cons c cs)
  have nl: "CHR 0x0A \<notin> set ''completeness score:''" by simp
  have "match_lit_ci ''completeness score:'' ((c # cs) @ CHR 0x0A # Y) = None"
    using Cons.prems nl by (rule match_lit_ci_none)
  then have z: "score_at ((c # cs) @ CHR 0x0A # Y) = None"
    by (rule score_at_no_lit)
  from Cons.prems have "\<not> contains ''completeness score:'' (map ascii_lower cs)"
    by (simp only: list.map contains.simps de_Morgan_disj simp_thms)
  then have ih: "re_search_score (cs @ CHR 0x0A # Y) = re_search_score (CHR 0x0A # Y)"
    by (rule Cons.IH)
  have "re_search_score ((c # cs) @ CHR 0x0A # Y)
          = (case score_at ((c # cs) @ CHR 0x0A # Y) of
               Some ds \<Rightarrow> Some ds
             | None \<Rightarrow> re_search_score (cs @ CHR 0x0A # Y))"
    by (simp only: append_Cons re_search_score.simps)
  then show ?case by (simp only: z option.case ih)
qed

lemma re_search_score_heading:
  "re_search_score (CHR 0x0A # ''### Completeness Score: 7/10'' @ rest) = Some ''7''"
  by (simp add: score_at_def ascii_lower_def is_space_def is_digit_def)

lemma takeWhile_upto: "list_all P a \<Longrightarrow> \<not> P x \<Longrightarrow> takeWhile P (a @ x # b) = a"
  by (induction a) simp_all


lemma filter_nonblank_ne: "list_ex nonblank ls \<Longrightarrow> filter nonblank ls \<noteq> []"
  by (simp add: filter_empty_conv list_ex_iff)

text \<open>
  Claim C1, as the specification states it: in a response with the four headings in their
  order, each of the three sections holds exactly the non-blank lines between its heading
  and the next heading. The scan knows three headings only: the line of the score heading
  and the lines after it are lines of the section that is open, the missing sections. For
  the response below the specification's reading gives the missing sections one line, and
  the program gives them three.
\<close>

theorem four_headings_counterexample:
  "map_sum id (\<lambda>r. (score r, section_lists r MissingSections, section_lists r ImprovementTips,
                     section_lists r DetailedFeedback)) (parse raw_four_headings)
     = Inr (Some 7,
            Some [''- References'', ''### Completeness Score: 7/10'', ''Most parts are there.''],
            Some [''- Cite your sources''], Some [''Clear procedure.'']) \<and>
   spec_section_content ''### Missing Sections:'' (split_nl raw_four_headings) = [''- References'']"
  by (simp add: raw_four_headings_def spec_section_content_def prompt_heading_def eval_defs)

text \<open>
  Claim C1, amended: let the lines of a response be, in this order, a line taking the
  branch of the Missing Sections heading, lines without a recognised heading, the line
  \<^verbatim>\<open>### Completeness Score: 7/10\<close>, lines without a recognised heading, a line taking the
  branch of Improvement Tips, such lines again, a line taking the branch of Detailed
  Feedback and such lines again (anything may precede the first heading), with at least one
  non-blank line after each of the last two headings and without the text
  \<^verbatim>\<open>completeness score:\<close>, in any letter case, before the score heading. Then the parsing
  returns the score 7, the unchanged response and three non-empty sections: the
  improvement tips and the detailed feedback hold exactly the non-blank lines between their
  heading and the next one (or the end), and the missing sections hold the non-blank lines
  after their heading, then the line of the score heading, then the non-blank lines that
  follow it up to the heading of the tips.
\<close>

theorem four_headings_parse:
  assumes sp: "split_nl raw
                 = pre @ h1 # c1 @ ''### Completeness Score: 7/10'' # c2 @ h3 # c3 @ h4 # c4"
    and h1: "heading_of h1 = Some MissingSections"
    and h3: "heading_of h3 = Some ImprovementTips"
    and h4: "heading_of h4 = Some DetailedFeedback"
    and p1: "list_all plain c1" and p2: "list_all plain c2"
    and p3: "list_all plain c3" and p4: "list_all plain c4"
    and nolit: "\<not> contains ''completeness score:'' (map ascii_lower (join_nl (pre @ h1 # c1)))"
    and n3: "list_ex nonblank c3" and n4: "list_ex nonblank c4"
  shows "\<exists>r. parse raw = Inr r \<and> score r = Some 7 \<and> full_response r = raw \<and>
           section_lists r MissingSections
             = Some (filter nonblank c1 @ ''### Completeness Score: 7/10'' # filter nonblank c2) \<and>
           section_lists r ImprovementTips = Some (filter nonblank c3) \<and>
           section_lists r DetailedFeedback = Some (filter nonblank c4) \<and>
           filter nonblank c3 \<noteq> [] \<and> filter nonblank c4 \<noteq> []"
proof -
  let ?hs = "''### Completeness Score: 7/10''"
  let ?rest = "c2 @ h3 # c3 @ h4 # c4"
  have phs: "plain ?hs" by (simp add: plain_def heading_of_def)
  have nhs: "nonblank ?hs" by (simp add: nonblank_def py_strip_def is_space_def)
  have np3: "\<not> plain h3" by (simp add: plain_def h3)
  have np4: "\<not> plain h4" by (simp add: plain_def h4)
  have sp': "split_nl raw = (pre @ h1 # c1) @ (?hs # ?rest)"
    by (simp only: sp append_assoc append_Cons)
  have "raw = join_nl (split_nl raw)" by (simp only: join_split)
  also have "\<dots> = join_nl (pre @ h1 # c1) @ CHR 0x0A # join_nl (?hs # ?rest)"
    unfolding sp' by (rule join_nl_append) simp_all
  also have "join_nl (?hs # ?rest) = ?hs @ CHR 0x0A # join_nl ?rest"
    by (rule join_nl_Cons) simp
  finally have raw: "raw = join_nl (pre @ h1 # c1) @ CHR 0x0A # ?hs @ CHR 0x0A # join_nl ?rest" .
  have "re_search_score raw = re_search_score (CHR 0x0A # ?hs @ CHR 0x0A # join_nl ?rest)"
    unfolding raw using nolit by (rule re_search_score_skip)
  also have "\<dots> = Some ''7''" by (rule re_search_score_heading)
  finally have rs: "re_search_score raw = Some ''7''" .
  have es: "extract_score raw = Inr (Some 7)"
    by (simp add: extract_score_def rs py_int_def is_digit_def int_max_str_digits_def
        dec_val_def digit_val_def)
  from parse_scan [of raw] obtain st
    where b: "scan_lines init_state (split_nl raw) = Inr st"
      and p: "parse raw = (case extract_score raw of
                    Inl e \<Rightarrow> Inl e
                  | Inr sc \<Rightarrow> Inr \<lparr>score = sc, section_lists = sections st, full_response = raw\<rparr>)"
    by blast
  have pr: "parse raw = Inr \<lparr>score = Some 7, section_lists = sections st, full_response = raw\<rparr>"
    by (simp add: p es)
  have postM: "list_all (\<lambda>l. heading_of l \<noteq> Some MissingSections) (c1 @ ?hs # ?rest)"
    using p1 p2 p3 p4 phs h3 h4 by (auto simp: list_all_iff plain_def)
  have postT: "list_all (\<lambda>l. heading_of l \<noteq> Some ImprovementTips) (c3 @ h4 # c4)"
    using p3 p4 h4 by (auto simp: list_all_iff plain_def)
  have postF: "list_all (\<lambda>l. heading_of l \<noteq> Some DetailedFeedback) c4"
    using p4 by (auto simp: list_all_iff plain_def)
  have tM: "takeWhile plain ((c1 @ ?hs # c2) @ h3 # c3 @ h4 # c4) = c1 @ ?hs # c2"
    by (rule takeWhile_upto) (simp_all add: p1 p2 phs np3)
  have tT: "takeWhile plain (c3 @ h4 # c4) = c3"
    using p3 np4 by (rule takeWhile_upto)
  have tF: "takeWhile plain c4 = c4"
    using p4 by (simp add: takeWhile_eq_all_conv list_all_iff)
  from scan_section_result [OF h1 postM, of pre] b
  have "sections st MissingSections = Some (filter nonblank (takeWhile plain (c1 @ ?hs # ?rest)))"
    by (simp add: sp)
  also have "takeWhile plain (c1 @ ?hs # ?rest) = c1 @ ?hs # c2"
    using tM by simp
  finally have m: "sections st MissingSections = Some (filter nonblank c1 @ ?hs # filter nonblank c2)"
    by (simp add: nhs)
  from scan_section_result [OF h3 postT, of "pre @ h1 # c1 @ ?hs # c2"] b
  have "sections st ImprovementTips = Some (filter nonblank (takeWhile plain (c3 @ h4 # c4)))"
    by (simp add: sp)
  then have t: "sections st ImprovementTips = Some (filter nonblank c3)"
    by (simp only: tT)
  from scan_section_result [OF h4 postF, of "pre @ h1 # c1 @ ?hs # c2 @ h3 # c3"] b
  have "sections st DetailedFeedback = Some (filter nonblank (takeWhile plain c4))"
    by (simp add: sp)
  then have f: "sections st DetailedFeedback = Some (filter nonblank c4)"
    by (simp only: tF)
  from pr m t f filter_nonblank_ne [OF n3] filter_nonblank_ne [OF n4]
  show ?thesis by simp
qed

text \<open>
  The response of the counterexample is of this form, with an empty line closing the first
  and the last section.
\<close>

theorem four_headings_parse_witness:
  "split_nl raw_four_headings
     = [] @ ''### Missing Sections:'' # [''- References'', []]
          @ ''### Completeness Score: 7/10'' # [''Most parts are there.'']
          @ ''### Improvement Tips:'' # [''- Cite your sources'']
          @ ''### Detailed Feedback:'' # [''Clear procedure.'', []] \<and>
   \<not> contains ''completeness score:''
        (map ascii_lower (join_nl ([] @ ''### Missing Sections:'' # [''- References'', []]))) \<and>
   map_sum id (\<lambda>r. (score r, section_lists r MissingSections, section_lists r ImprovementTips,
                     section_lists r DetailedFeedback, full_response r)) (parse raw_four_headings)
     = Inr (Some 7,
            Some [''- References'', ''### Completeness Score: 7/10'', ''Most parts are there.''],
            Some [''- Cite your sources''], Some [''Clear procedure.''], raw_four_headings)"
proof -
  have sp: "split_nl raw_four_headings
     = [] @ ''### Missing Sections:'' # [''- References'', []]
          @ ''### Completeness Score: 7/10'' # [''Most parts are there.'']
          @ ''### Improvement Tips:'' # [''- Cite your sources'']
          @ ''### Detailed Feedback:'' # [''Clear procedure.'', []]"
    by (simp add: raw_four_headings_def split_nl_def)
  have h1: "heading_of ''### Missing Sections:'' = Some MissingSections"
    by (simp add: heading_of_def)
  have h3: "heading_of ''### Improvement Tips:'' = Some ImprovementTips"
    by (simp add: heading_of_def)
  have h4: "heading_of ''### Detailed Feedback:'' = Some DetailedFeedback"
    by (simp add: heading_of_def)
  have p1: "list_all plain [''- References'', []]"
    by (simp add: plain_def heading_of_def)
  have p2: "list_all plain [''Most parts are there.'']"
    by (simp add: plain_def heading_of_def)
  have p3: "list_all plain [''- Cite your sources'']"
    by (simp add: plain_def heading_of_def)
  have p4: "list_all plain [''Clear procedure.'', []]"
    by (simp add: plain_def heading_of_def)
  have nolit: "\<not> contains ''completeness score:''
        (map ascii_lower (join_nl ([] @ ''### Missing Sections:'' # [''- References'', []])))"
    by (simp add: ascii_lower_def)
  have n3: "list_ex nonblank [''- Cite your sources'']"
    by (simp add: nonblank_def py_strip_def is_space_def)
  have n4: "list_ex nonblank [''Clear procedure.'', []]"
    by (simp add: nonblank_def py_strip_def is_space_def)
  have f1: "filter nonblank [''- References'', []] = [''- References'']"
    by (simp add: nonblank_def py_strip_def is_space_def)
  have f2: "filter nonblank [''Most parts are there.''] = [''Most parts are there.'']"
    by (simp add: nonblank_def py_strip_def is_space_def)
  have f3: "filter nonblank [''- Cite your sources''] = [''- Cite your sources'']"
    by (simp add: nonblank_def py_strip_def is_space_def)
  have f4: "filter nonblank [''Clear procedure.'', []] = [''Clear procedure.'']"
    by (simp add: nonblank_def py_strip_def is_space_def)
  from four_headings_parse [OF sp h1 h3 h4 p1 p2 p3 p4 nolit n3 n4] obtain r
    where "parse raw_four_headings = Inr r" "score r = Some 7" "full_response r = raw_four_headings"
      "section_lists r MissingSections
         = Some (filter nonblank [''- References'', []] @ ''### Completeness Score: 7/10''
                   # filter nonblank [''Most parts are there.''])"
      "section_lists r ImprovementTips = Some (filter nonblank [''- Cite your sources''])"
      "section_lists r DetailedFeedback = Some (filter nonblank [''Clear procedure.'', []])"
    by (elim exE conjE)
  then have "map_sum id (\<lambda>r. (score r, section_lists r MissingSections, section_lists r ImprovementTips,
                     section_lists r DetailedFeedback, full_response r)) (parse raw_four_headings)
     = Inr (Some 7,
            Some [''- References'', ''### Completeness Score: 7/10'', ''Most parts are there.''],
            Some [''- Cite your sources''], Some [''Clear procedure.''], raw_four_headings)"
    by (simp only: f1 f2 f3 f4) simp
  with sp nolit show ?thesis by (intro conjI)
qed


end
